theory Spec2Isabelle
  imports Main "HOL-Library.Sublist"
begin

text \<open>
  A model of the plugin that records the former names of a renamed file as aliases in its
  front matter: the path utilities (utils/path-utils.ts), the rename handler with its
  scope filter and its debounce map (main.ts) and the settlement (processAliases of
  utils/alias-processor.ts). The sources hold the rename handler in three revisions.
  \<open>handleRename_first\<close> is the earliest one (the main.ts that still contains the path
  utilities and the settlement): it applies the include and exclude folders to every event
  and compares them with the path literally. \<open>handleRename\<close> is the revision with
  isPathInFolder, which applies the folders to name changes only; like the first it
  accumulates the queued names and looks the map up under the old path.
  \<open>handleRename_stable\<close> is the latest revision, which looks the map up under the new
  path first, keeps the first queued name and tracks folder renames for one file name.
\<close>

section \<open>Strings\<close>

text \<open>
  Paths, names and patterns are JavaScript strings; they are modelled as \<open>string\<close>
  (lists of characters; a character outside ASCII is the sequence of its UTF-8 bytes, in
  which the slash, the dot and the braces occur only as themselves). The string methods
  that compare and cut characters are written out below. The methods whose result depends
  on the character tables of the platform (\<^verbatim>\<open>toLowerCase\<close>, \<^verbatim>\<open>trim\<close>) and the regular
  expressions of the ignore patterns are parameters of the model, introduced with the
  settings.
\<close>

text \<open>\<^verbatim>\<open>s.split(sep)\<close> for a one-character separator: the pieces between the separators,
  never an empty array (\<^verbatim>\<open>"".split("/")\<close> is \<^verbatim>\<open>[""]\<close>).\<close>

fun splitOn :: "char \<Rightarrow> string \<Rightarrow> string \<Rightarrow> string list" where
  "splitOn sep acc [] = [rev acc]"
| "splitOn sep acc (c # cs) =
     (if c = sep then rev acc # splitOn sep [] cs else splitOn sep (c # acc) cs)"

definition splitSlash :: "string \<Rightarrow> string list" where
  "splitSlash p = splitOn (CHR ''/'') [] p"

text \<open>\<^verbatim>\<open>parts.pop()\<close>: the last element (\<^verbatim>\<open>undefined\<close> on an empty array, here \<open>None\<close>)
  and the array without it.\<close>

definition pop :: "'a list \<Rightarrow> 'a option \<times> 'a list" where
  "pop xs = (if xs = [] then (None, []) else (Some (last xs), butlast xs))"

text \<open>\<^verbatim>\<open>x || ''\<close> on a string or \<^verbatim>\<open>undefined\<close>: both \<^verbatim>\<open>undefined\<close> and the empty string
  are falsy.\<close>

definition orEmpty :: "string option \<Rightarrow> string" where
  "orEmpty x = (case x of None \<Rightarrow> [] | Some s \<Rightarrow> s)"

text \<open>\<^verbatim>\<open>name.replace(/\.[^/.]+$/, '')\<close>. The pattern matches a dot followed by one or more
  characters, none of them a dot or a slash, up to the end of the string. A match can
  therefore only start at the last dot of the string, and there is one exactly when the
  string has a dot, the text after its last dot is not empty and holds no slash.\<close>

definition stripExtension :: "string \<Rightarrow> string" where
  "stripExtension name =
     (let ext = takeWhile (\<lambda>c. c \<noteq> CHR ''.'') (rev name)
      in if CHR ''.'' \<in> set name \<and> ext \<noteq> [] \<and> CHR ''/'' \<notin> set ext
         then take (length name - length ext - 1) name
         else name)"

text \<open>\<^verbatim>\<open>s.includes(sub)\<close> and \<^verbatim>\<open>s.startsWith(pre)\<close>.\<close>

fun includes_str :: "string \<Rightarrow> string \<Rightarrow> bool" where
  "includes_str [] sub = (sub = [])"
| "includes_str (c # cs) sub = (prefix sub (c # cs) \<or> includes_str cs sub)"

definition startsWith :: "string \<Rightarrow> string \<Rightarrow> bool" where
  "startsWith s pre = prefix pre s"

section \<open>Path utilities (src/utils/path-utils.ts)\<close>

definition getBasename :: "string \<Rightarrow> string" where
  "getBasename p =
     (let name = orEmpty (fst (pop (splitSlash p)))
      in stripExtension name)"

definition getImmediateParentName :: "string \<Rightarrow> string" where
  "getImmediateParentName p =
     (let parts = splitSlash p;
          parts1 = snd (pop parts)
      in orEmpty (fst (pop parts1)))"

section \<open>Scope filter (isPathInFolder of main.ts)\<close>

text \<open>\<^verbatim>\<open>folder.replace(/\{vault\}|\{root\}/g, '')\<close>: one pass from left to right that drops
  every occurrence of one of the two tokens; the text produced is not scanned again.\<close>

fun stripTokens :: "string \<Rightarrow> string" where
  "stripTokens [] = []"
| "stripTokens (c # cs) =
     (if prefix ''{vault}'' (c # cs) then stripTokens (drop 6 cs)
      else if prefix ''{root}'' (c # cs) then stripTokens (drop 5 cs)
      else c # stripTokens cs)"

definition isPathInFolder :: "string \<Rightarrow> string \<Rightarrow> bool" where
  "isPathInFolder p folder =
     (if includes_str folder ''{vault}'' \<or> includes_str folder ''{root}'' then
        (let resolvedFolder = stripTokens folder
         in if resolvedFolder = [] \<or> resolvedFolder = ''/''
            then \<not> includes_str p ''/''
            else startsWith p (resolvedFolder @ ''/'') \<or> p = resolvedFolder)
      else startsWith p (folder @ ''/'') \<or> p = folder)"

section \<open>The platform, the settings and the files\<close>

text \<open>
  What the JavaScript platform provides and the model takes as given. A compiled regular
  expression is modelled by its \<^verbatim>\<open>test\<close> method (the patterns are built without flags, so
  \<^verbatim>\<open>test\<close> keeps no state); \<open>newRegExp\<close> is \<^verbatim>\<open>new RegExp(str)\<close>, \<open>None\<close> when the constructor
  throws. \<open>toLowerCase\<close> and \<open>trim\<close> are the string methods of these names. Every function
  below that needs one of them takes the platform \<open>js\<close> as its first argument, and the
  theorems hold for every platform.
\<close>

type_synonym regexp = "string \<Rightarrow> bool"

record platform =
  newRegExp :: "string \<Rightarrow> regexp option"
  toLowerCase :: "string \<Rightarrow> string"
  trim :: "string \<Rightarrow> string"

text \<open>
  The settings object. \<open>trackFolderRenames\<close> is a boolean toggle in the first two
  revisions of main.ts and the name of a file (a string) in the latest one; the record
  leaves its type open.
\<close>

record 't settings =
  ignoreRegexes :: "string list"
  timeoutSeconds :: nat
  caseSensitive :: bool
  autoCreateFrontmatter :: bool
  includeFolders :: "string list"
  excludeFolders :: "string list"
  fileExtensions :: "string list"
  trackFolderRenames :: 't

text \<open>What the host hands to the rename handler: a file handle with the fields the plugin
  reads, or a folder.\<close>

record tfile =
  path :: string
  basename :: string
  extension :: string

datatype abstractFile = TFile tfile | TFolder string

text \<open>The loop that compiles the configured patterns skips the ones whose constructor
  throws; \<open>someTest\<close> is \<^verbatim>\<open>regexes.some(re => re.test(name))\<close>.\<close>

definition compileAll :: "(string \<Rightarrow> regexp option) \<Rightarrow> string list \<Rightarrow> regexp list" where
  "compileAll construct strs = List.map_filter construct strs"

definition someTest :: "regexp list \<Rightarrow> string \<Rightarrow> bool" where
  "someTest regexes name = list_ex (\<lambda>re. re name) regexes"

section \<open>Classification of a rename (handleRename of main.ts, up to the queue)\<close>

definition isNameChange :: "platform \<Rightarrow> 't settings \<Rightarrow> string \<Rightarrow> string \<Rightarrow> bool" where
  "isNameChange js s oldBasename newBasename =
     (if caseSensitive s then oldBasename \<noteq> newBasename
      else toLowerCase js oldBasename \<noteq> toLowerCase js newBasename)"

definition isFolderChange :: "platform \<Rightarrow> 't settings \<Rightarrow> tfile \<Rightarrow> string \<Rightarrow> bool" where
  "isFolderChange js s newFile oldPath =
     (getImmediateParentName oldPath \<noteq> getImmediateParentName (path newFile)
      \<and> \<not> isNameChange js s (getBasename oldPath) (basename newFile))"

text \<open>The include and exclude checks, as the two \<^verbatim>\<open>if\<close> statements of the handler that
  return early.\<close>

definition outOfScope :: "'t settings \<Rightarrow> string \<Rightarrow> bool" where
  "outOfScope s p =
     ((includeFolders s \<noteq> [] \<and> \<not> list_ex (\<lambda>f. isPathInFolder p f) (includeFolders s))
      \<or> list_ex (\<lambda>f. isPathInFolder p f) (excludeFolders s))"

text \<open>
  The handler up to \<^verbatim>\<open>if (!toQueue) return;\<close>: the name to queue, or \<open>None\<close> where the
  handler returns before the queue. The two later revisions differ only in the condition
  under which a folder change is tracked, which is the parameter \<open>tracking\<close>; the empty
  string is falsy and is not queued.
\<close>

definition toQueue :: "platform \<Rightarrow> 't settings \<Rightarrow> bool \<Rightarrow> tfile \<Rightarrow> string \<Rightarrow> string option" where
  "toQueue js s tracking newFile oldPath =
     (if extension newFile \<notin> set (fileExtensions s) then None
      else
        let oldBasename = getBasename oldPath;
            newBasename = basename newFile;
            oldImmediateParentName = getImmediateParentName oldPath;
            newImmediateParentName = getImmediateParentName (path newFile);
            nameChange = isNameChange js s oldBasename newBasename;
            folderChange = isFolderChange js s newFile oldPath
        in if \<not> nameChange \<and> \<not> folderChange then None
           else if nameChange \<and> outOfScope s (path newFile) then None
           else
             let regexes = compileAll (newRegExp js) (ignoreRegexes s)
             in if nameChange then
                  (if someTest regexes oldBasename \<or> someTest regexes newBasename then None
                   else if oldBasename = [] then None
                   else Some oldBasename)
                else if folderChange \<and> tracking then
                  (if oldImmediateParentName = [] \<or> newImmediateParentName = [] then None
                   else if someTest regexes oldImmediateParentName
                           \<or> someTest regexes newImmediateParentName then None
                   else Some oldImmediateParentName)
                else None)"

text \<open>The tracking condition of the boolean revisions, and of the revision that tracks a
  folder change only for a file of the configured name.\<close>

definition trackingToggle :: "bool settings \<Rightarrow> tfile \<Rightarrow> bool" where
  "trackingToggle s newFile = trackFolderRenames s"

definition trackingFilename :: "platform \<Rightarrow> string settings \<Rightarrow> tfile \<Rightarrow> bool" where
  "trackingFilename js s newFile =
     (trackFolderRenames s \<noteq> [] \<and> trim js (trackFolderRenames s) \<noteq> []
      \<and> (if caseSensitive s then basename newFile = trackFolderRenames s
         else toLowerCase js (basename newFile) = toLowerCase js (trackFolderRenames s)))"

text \<open>
  The first revision of the handler has no isPathInFolder: it compares the path with each
  configured folder literally, and it does so for every event that is a name change or a
  folder change, before the ignore patterns are looked at.
\<close>

definition inFolder :: "string \<Rightarrow> string \<Rightarrow> bool" where
  "inFolder p f = (startsWith p (f @ ''/'') \<or> p = f)"

definition outOfScope_first :: "'t settings \<Rightarrow> string \<Rightarrow> bool" where
  "outOfScope_first s p =
     ((includeFolders s \<noteq> [] \<and> \<not> list_ex (\<lambda>f. inFolder p f) (includeFolders s))
      \<or> list_ex (\<lambda>f. inFolder p f) (excludeFolders s))"

definition toQueue_first :: "platform \<Rightarrow> bool settings \<Rightarrow> tfile \<Rightarrow> string \<Rightarrow> string option" where
  "toQueue_first js s newFile oldPath =
     (if extension newFile \<notin> set (fileExtensions s) then None
      else
        let oldBasename = getBasename oldPath;
            newBasename = basename newFile;
            oldImmediateParentName = getImmediateParentName oldPath;
            newImmediateParentName = getImmediateParentName (path newFile);
            nameChange = isNameChange js s oldBasename newBasename;
            folderChange = isFolderChange js s newFile oldPath
        in if \<not> nameChange \<and> \<not> folderChange then None
           else if outOfScope_first s (path newFile) then None
           else
             let regexes = compileAll (newRegExp js) (ignoreRegexes s)
             in if nameChange then
                  (if someTest regexes oldBasename \<or> someTest regexes newBasename then None
                   else if oldBasename = [] then None
                   else Some oldBasename)
                else if folderChange \<and> trackFolderRenames s then
                  (if oldImmediateParentName = [] \<or> newImmediateParentName = [] then None
                   else if someTest regexes oldImmediateParentName
                           \<or> someTest regexes newImmediateParentName then None
                   else Some oldImmediateParentName)
                else None)"

section \<open>Settlement (processAliases of utils/alias-processor.ts)\<close>

text \<open>
  The front matter of a file is a key-value object read from YAML. A value is an array or
  anything else (\<open>NonArray\<close>, kept as an opaque text); an entry of an array is a string or
  a value that is not a string (a number, a boolean, null, a nested array or object), kept
  as an opaque text too. \<^verbatim>\<open>Array.isArray\<close> tells arrays from the rest and does not look at
  the entries. The vault maps a path to the file that lives there.
\<close>

datatype jsvalue = JString string | JOther string

datatype fmvalue = NonArray string | Array "jsvalue list"

type_synonym frontmatter = "string \<rightharpoonup> fmvalue"

record vfile =
  handle :: tfile
  frontmatter :: frontmatter

type_synonym vault = "string \<rightharpoonup> vfile"

text \<open>Calling \<^verbatim>\<open>toLowerCase\<close> on a value that is not a string throws a TypeError, since no
  such value has the method.\<close>

datatype error = TypeError

text \<open>The first loop of processAliases: the queued names that match no ignore pattern and
  differ from the current basename under the case policy, in the order of the queue.\<close>

definition toAdd :: "platform \<Rightarrow> 't settings \<Rightarrow> string \<Rightarrow> string list \<Rightarrow> string list" where
  "toAdd js s currentBasename names =
     (let regexes = compileAll (newRegExp js) (ignoreRegexes s)
      in filter (\<lambda>name.
           \<not> someTest regexes name
           \<and> \<not> ((caseSensitive s \<and> name = currentBasename)
                \<or> (\<not> caseSensitive s
                    \<and> toLowerCase js name = toLowerCase js currentBasename)))
           names)"

text \<open>\<^verbatim>\<open>aliases.map((a: string) => a.toLowerCase())\<close>: the annotation is not checked when the
  code runs, and the first entry that is not a string makes the call throw.\<close>

fun lowerAll :: "platform \<Rightarrow> jsvalue list \<Rightarrow> error + jsvalue list" where
  "lowerAll js [] = Inr []"
| "lowerAll js (JString a # as) =
     (case lowerAll js as of
        Inl e \<Rightarrow> Inl e
      | Inr ls \<Rightarrow> Inr (JString (toLowerCase js a) # ls))"
| "lowerAll js (JOther _ # as) = Inl TypeError"

text \<open>\<^verbatim>\<open>new Set(caseSensitive ? aliases : aliases.map(...))\<close>: the set \<open>existing\<close>.\<close>

definition existingSet :: "platform \<Rightarrow> 't settings \<Rightarrow> jsvalue list \<Rightarrow> error + jsvalue set" where
  "existingSet js s aliases =
     (if caseSensitive s then Inr (set aliases)
      else case lowerAll js aliases of Inl e \<Rightarrow> Inl e | Inr ls \<Rightarrow> Inr (set ls))"

text \<open>The second loop: a name is pushed when its check name (the name itself, or the name
  in lower case unless the setting is case sensitive) is not in the set, and the check
  name is added to the set.\<close>

definition checkName :: "platform \<Rightarrow> 't settings \<Rightarrow> string \<Rightarrow> string" where
  "checkName js s name = (if caseSensitive s then name else toLowerCase js name)"

fun pushNew :: "platform \<Rightarrow> 't settings \<Rightarrow> jsvalue list \<Rightarrow> jsvalue set \<Rightarrow> string list
    \<Rightarrow> jsvalue list" where
  "pushNew js s aliases existing [] = aliases"
| "pushNew js s aliases existing (name # names) =
     (if JString (checkName js s name) \<notin> existing
      then pushNew js s (aliases @ [JString name])
             (insert (JString (checkName js s name)) existing) names
      else pushNew js s aliases existing names)"

definition mergeAliases :: "platform \<Rightarrow> 't settings \<Rightarrow> jsvalue list \<Rightarrow> string list
    \<Rightarrow> error + jsvalue list" where
  "mergeAliases js s aliases names =
     (case existingSet js s aliases of
        Inl e \<Rightarrow> Inl e
      | Inr existing \<Rightarrow> Inr (pushNew js s aliases existing names))"

text \<open>The function handed to processFrontMatter. It returns the front matter as the code
  leaves it, or the error it throws; when it throws, it has changed nothing yet.\<close>

definition mutator :: "platform \<Rightarrow> 't settings \<Rightarrow> string list \<Rightarrow> frontmatter
    \<Rightarrow> error + frontmatter" where
  "mutator js s names fm =
     (case fm ''aliases'' of
        Some (Array aliases) \<Rightarrow>
          (case mergeAliases js s aliases names of
             Inl e \<Rightarrow> Inl e
           | Inr aliases' \<Rightarrow> Inr (fm(''aliases'' \<mapsto> Array aliases')))
      | _ \<Rightarrow>
          if \<not> autoCreateFrontmatter s then Inr fm
          else
            (case mergeAliases js s [] names of
               Inl e \<Rightarrow> Inl e
             | Inr aliases' \<Rightarrow> Inr (fm(''aliases'' \<mapsto> Array aliases'))))"

text \<open>processAliases: the vault after the call, or the error with which the promise is
  rejected. The host persists the front matter when the mutator returns and discards the
  transaction when it throws, so that an error leaves the vault as it was.\<close>

definition processAliases :: "platform \<Rightarrow> 't settings \<Rightarrow> vault \<Rightarrow> string \<Rightarrow> string list
    \<Rightarrow> error + vault" where
  "processAliases js s v p names =
     (case v p of
        None \<Rightarrow> Inr v
      | Some file \<Rightarrow>
          let survivors = toAdd js s (basename (handle file)) names
          in if survivors = [] then Inr v
             else case mutator js s survivors (frontmatter file) of
                    Inl e \<Rightarrow> Inl e
                  | Inr fm \<Rightarrow> Inr (v(p \<mapsto> file\<lparr>frontmatter := fm\<rparr>)))"

text \<open>The alias list of the file at a path, empty when there is no file or no list.\<close>

definition aliasesAt :: "vault \<Rightarrow> string \<Rightarrow> jsvalue list" where
  "aliasesAt v p =
     (case v p of
        None \<Rightarrow> []
      | Some file \<Rightarrow> (case frontmatter file ''aliases'' of Some (Array xs) \<Rightarrow> xs | _ \<Rightarrow> []))"

text \<open>The names that the second loop pushes, as strings, when \<open>seen\<close> is the set of the
  strings in \<open>existing\<close>; \<open>pushNew\<close> appends exactly these to the list.\<close>

fun pushed :: "platform \<Rightarrow> 't settings \<Rightarrow> string set \<Rightarrow> string list \<Rightarrow> string list" where
  "pushed js s seen [] = []"
| "pushed js s seen (name # names) =
     (if checkName js s name \<notin> seen
      then name # pushed js s (insert (checkName js s name) seen) names
      else pushed js s seen names)"

text \<open>An entry of the list as the set \<open>existing\<close> holds it when the set can be built: a
  string is mapped to its check name, any other value is kept as it is (which is the
  case only under the case-sensitive setting).\<close>

definition normalised :: "platform \<Rightarrow> 't settings \<Rightarrow> jsvalue \<Rightarrow> jsvalue" where
  "normalised js s y = (case y of JString a \<Rightarrow> JString (checkName js s a) | JOther t \<Rightarrow> JOther t)"

definition isString :: "jsvalue \<Rightarrow> bool" where
  "isString y = (case y of JString a \<Rightarrow> True | JOther t \<Rightarrow> False)"

section \<open>The debounce map and its timers\<close>

text \<open>
  An entry of the debounce map is an object shared by the map and by the closure of its
  timer, so entries live in a store and are named by references. A queue is a JavaScript
  \<^verbatim>\<open>Set\<close> of strings, kept as the list of its elements in insertion order. The live timers
  are a map from the timer id to the entry its closure holds; \<open>calls\<close> records the calls
  of processAliases that fired timers have made, oldest first.
\<close>

record entry =
  queue :: "string list"
  timeoutId :: "nat option"
  currentPath :: string

record plugin =
  heap :: "nat \<Rightarrow> entry"
  nextRef :: nat
  debounceMap :: "string \<rightharpoonup> nat"
  timers :: "nat \<rightharpoonup> nat"
  nextTimer :: nat
  calls :: "(string \<times> string list) list"

definition initial :: plugin where
  "initial = \<lparr>heap = (\<lambda>r. \<lparr>queue = [], timeoutId = None, currentPath = []\<rparr>), nextRef = 0,
     debounceMap = Map.empty, timers = Map.empty, nextTimer = 1, calls = []\<rparr>"

definition setAdd :: "string list \<Rightarrow> string \<Rightarrow> string list" where
  "setAdd q x = (if x \<in> set q then q else q @ [x])"

text \<open>\<^verbatim>\<open>if (entry.timeoutId !== null) clearTimeout(entry.timeoutId)\<close>; clearing a timer that has
  fired changes nothing.\<close>

definition clearTimeout :: "nat option \<Rightarrow> (nat \<rightharpoonup> nat) \<Rightarrow> (nat \<rightharpoonup> nat)" where
  "clearTimeout tid ts = (case tid of None \<Rightarrow> ts | Some t \<Rightarrow> ts(t := None))"

text \<open>The queue step of main.ts in the revisions with the accumulating queue: the entry
  under \<open>oldPath\<close> is taken over, moved and extended, or a new entry is made; its timer is
  replaced. The map is not looked up under \<open>newPath\<close>.\<close>

definition enqueue :: "plugin \<Rightarrow> string \<Rightarrow> string \<Rightarrow> string \<Rightarrow> plugin" where
  "enqueue st oldPath newPath name =
     (let (r, e0, m0, nr) =
            (case debounceMap st oldPath of
               Some r \<Rightarrow> (r, (heap st r)\<lparr>currentPath := newPath\<rparr>,
                          (debounceMap st)(oldPath := None), nextRef st)
             | None \<Rightarrow> (nextRef st, \<lparr>queue = [], timeoutId = None, currentPath = newPath\<rparr>,
                        debounceMap st, Suc (nextRef st)));
          e1 = e0\<lparr>queue := setAdd (queue e0) name\<rparr>;
          ts1 = clearTimeout (timeoutId e1) (timers st);
          t = nextTimer st;
          e2 = e1\<lparr>timeoutId := Some t\<rparr>
      in st\<lparr>heap := (heap st)(r := e2), nextRef := nr, debounceMap := m0(newPath \<mapsto> r),
            timers := ts1(t \<mapsto> r), nextTimer := Suc t\<rparr>)"

text \<open>\<^verbatim>\<open>Array.from(existingEntry.queue)[0]\<close>: \<^verbatim>\<open>undefined\<close> on an empty set, here \<open>None\<close>.\<close>

definition firstQueued :: "string list \<Rightarrow> string option" where
  "firstQueued q = (case q of [] \<Rightarrow> None | x # _ \<Rightarrow> Some x)"

text \<open>The queue step of the revision that keeps the first stable name: the entry is looked
  up under \<open>newPath\<close>, then under \<open>oldPath\<close> (and removed there); its timer is cancelled and
  a new entry holding its first queued name alone is stored under \<open>newPath\<close>. The result is
  \<open>None\<close> where the entry found has an empty queue: the name to queue is then
  \<^verbatim>\<open>undefined\<close>, which a queue of strings does not hold.\<close>

definition enqueue_stable :: "plugin \<Rightarrow> string \<Rightarrow> string \<Rightarrow> string \<Rightarrow> plugin option" where
  "enqueue_stable st oldPath newPath name =
     (let (existingEntry, m0) =
            (case debounceMap st newPath of
               Some r \<Rightarrow> (Some r, debounceMap st)
             | None \<Rightarrow>
                 (case debounceMap st oldPath of
                    Some r \<Rightarrow> (Some r, (debounceMap st)(oldPath := None))
                  | None \<Rightarrow> (None, debounceMap st)));
          ts1 = (case existingEntry of
                   Some r \<Rightarrow> clearTimeout (timeoutId (heap st r)) (timers st)
                 | None \<Rightarrow> timers st);
          name1 = (case existingEntry of
                     Some r \<Rightarrow> firstQueued (queue (heap st r))
                   | None \<Rightarrow> Some name)
      in case name1 of
           None \<Rightarrow> None
         | Some q \<Rightarrow>
             let r = nextRef st;
                 t = nextTimer st;
                 e = \<lparr>queue = [q], timeoutId = Some t, currentPath = newPath\<rparr>
             in Some (st\<lparr>heap := (heap st)(r := e), nextRef := Suc r,
                         debounceMap := m0(newPath \<mapsto> r), timers := ts1(t \<mapsto> r),
                         nextTimer := Suc t\<rparr>))"


definition handleRename :: "platform \<Rightarrow> bool settings \<Rightarrow> abstractFile \<Rightarrow> string
    \<Rightarrow> plugin \<Rightarrow> plugin" where
  "handleRename js s newFile oldPath st =
     (case newFile of
        TFolder _ \<Rightarrow> st
      | TFile f \<Rightarrow>
          (case toQueue js s (trackingToggle s f) f oldPath of
             None \<Rightarrow> st
           | Some name \<Rightarrow> enqueue st oldPath (path f) name))"

definition handleRename_stable :: "platform \<Rightarrow> string settings \<Rightarrow> abstractFile \<Rightarrow> string
    \<Rightarrow> plugin \<Rightarrow> plugin option" where
  "handleRename_stable js s newFile oldPath st =
     (case newFile of
        TFolder _ \<Rightarrow> Some st
      | TFile f \<Rightarrow>
          (case toQueue js s (trackingFilename js s f) f oldPath of
             None \<Rightarrow> Some st
           | Some name \<Rightarrow> enqueue_stable st oldPath (path f) name))"

text \<open>A timer fires: its closure calls processAliases with the path and the queue its entry
  has at that moment, and deletes the key of that path from the map. A timer that is not
  live (cleared, or fired before) does nothing.\<close>

definition fireTimer :: "plugin \<Rightarrow> nat \<Rightarrow> plugin" where
  "fireTimer st t =
     (case timers st t of
        None \<Rightarrow> st
      | Some r \<Rightarrow>
          let e = heap st r
          in st\<lparr>timers := (timers st)(t := None),
                calls := calls st @ [(currentPath e, queue e)],
                debounceMap := (debounceMap st)(currentPath e := None)\<rparr>)"

text \<open>The whole callback of a timer, with the settings and the vault of the moment it
  fires: the call of processAliases is carried out on the vault. The callback does not
  await the promise; when it is rejected, the vault stays as it was.\<close>

definition timerCallback :: "platform \<Rightarrow> 't settings \<Rightarrow> plugin \<times> vault \<Rightarrow> nat
    \<Rightarrow> plugin \<times> vault" where
  "timerCallback js s sv t =
     (case timers (fst sv) t of
        None \<Rightarrow> sv
      | Some r \<Rightarrow>
          (fireTimer (fst sv) t,
           case processAliases js s (snd sv) (currentPath (heap (fst sv) r))
                  (queue (heap (fst sv) r)) of
             Inl e \<Rightarrow> snd sv
           | Inr v \<Rightarrow> v))"

section \<open>Sequences of events\<close>

text \<open>
  The host delivers one event at a time: a rename notification, or a timer that fires.
  \<open>run\<close> and \<open>run_stable\<close> feed a list of events to the handlers of the two later
  revisions.
  \<open>renameChain\<close> is the special case of successive renames of one file, each from the path
  the one before led to, with no timer firing in between; \<open>accepted\<close> says that the handler
  reaches the queue step at each of them.
\<close>

datatype event = Rename abstractFile string | Fire nat

fun step :: "platform \<Rightarrow> bool settings \<Rightarrow> plugin \<Rightarrow> event \<Rightarrow> plugin" where
  "step js s st (Rename newFile oldPath) = handleRename js s newFile oldPath st"
| "step js s st (Fire t) = fireTimer st t"

definition run :: "platform \<Rightarrow> bool settings \<Rightarrow> plugin \<Rightarrow> event list
    \<Rightarrow> plugin" where
  "run js s st evs = foldl (step js s) st evs"

fun step_stable :: "platform \<Rightarrow> string settings \<Rightarrow> plugin \<Rightarrow> event
    \<Rightarrow> plugin option" where
  "step_stable js s st (Rename newFile oldPath) =
     handleRename_stable js s newFile oldPath st"
| "step_stable js s st (Fire t) = Some (fireTimer st t)"

fun run_stable :: "platform \<Rightarrow> string settings \<Rightarrow> plugin \<Rightarrow> event list
    \<Rightarrow> plugin option" where
  "run_stable js s st [] = Some st"
| "run_stable js s st (ev # evs) =
     (case step_stable js s st ev of
        None \<Rightarrow> None
      | Some st' \<Rightarrow> run_stable js s st' evs)"

fun renameChain :: "string \<Rightarrow> tfile list \<Rightarrow> event list" where
  "renameChain oldPath [] = []"
| "renameChain oldPath (f # fs) = Rename (TFile f) oldPath # renameChain (path f) fs"

fun accepted :: "platform \<Rightarrow> 't settings \<Rightarrow> ('t settings \<Rightarrow> tfile \<Rightarrow> bool) \<Rightarrow> string
    \<Rightarrow> tfile list \<Rightarrow> bool" where
  "accepted js s tracking oldPath [] = True"
| "accepted js s tracking oldPath (f # fs) =
     (toQueue js s (tracking s f) f oldPath \<noteq> None
      \<and> accepted js s tracking (path f) fs)"

section \<open>States of the debounce map\<close>

text \<open>Well-formed states of the debounce map: every live timer has an id and an entry
  handed out before, and is the timer its entry records; every entry in the map has been
  handed out, has a name in its queue and records a timer id handed out before. The
  initial state is well formed and the handlers and the timers keep states so.\<close>

definition wellFormed :: "plugin \<Rightarrow> bool" where
  "wellFormed st =
     ((\<forall>t r. timers st t = Some r
          \<longrightarrow> t < nextTimer st \<and> r < nextRef st \<and> timeoutId (heap st r) = Some t)
      \<and> (\<forall>p r. debounceMap st p = Some r
          \<longrightarrow> r < nextRef st \<and> queue (heap st r) \<noteq> []
              \<and> (\<forall>t. timeoutId (heap st r) = Some t \<longrightarrow> t < nextTimer st)))"

text \<open>The entry that the queue step of the latest revision finds: the one under the new
  path, else the one under the old path.\<close>

definition existingEntry :: "plugin \<Rightarrow> string \<Rightarrow> string \<Rightarrow> nat option" where
  "existingEntry st oldPath newPath =
     (case debounceMap st newPath of Some r \<Rightarrow> Some r | None \<Rightarrow> debounceMap st oldPath)"

text \<open>
  \<open>pendingFor st t r p\<close>: the entry \<open>r\<close> is the one stored under the path \<open>p\<close>, it names
  that path, and \<open>t\<close> is its live timer. \<open>queuedAt st t p name\<close>: the entry stored under \<open>p\<close>
  is pending with the live timer \<open>t\<close> and holds \<open>name\<close> in its queue, so that the timer, when
  it fires, calls processAliases with \<open>p\<close> and a queue that holds \<open>name\<close>. \<open>coalesced st st' p\<close> relates a state \<open>st\<close> to a
  later state \<open>st'\<close> in which the file now at \<open>p\<close> has such an entry, whose timer is the
  only live timer that \<open>st\<close> did not have, while the other paths hold no entries that \<open>st\<close>
  did not have and no call of processAliases has been made in between.
\<close>

definition pendingFor :: "plugin \<Rightarrow> nat \<Rightarrow> nat \<Rightarrow> string \<Rightarrow> bool" where
  "pendingFor st t r p =
     (timers st t = Some r \<and> debounceMap st p = Some r \<and> currentPath (heap st r) = p
      \<and> timeoutId (heap st r) = Some t)"

definition queuedAt :: "plugin \<Rightarrow> nat \<Rightarrow> string \<Rightarrow> string \<Rightarrow> bool" where
  "queuedAt st t p name = (\<exists>r. pendingFor st t r p \<and> name \<in> set (queue (heap st r)))"

definition coalesced :: "plugin \<Rightarrow> plugin \<Rightarrow> string \<Rightarrow> bool" where
  "coalesced st st' p =
     (wellFormed st'
      \<and> (\<exists>t r. pendingFor st' t r p \<and> nextTimer st \<le> t
            \<and> (\<forall>t'. t' \<noteq> t \<longrightarrow> timers st' t' = None \<or> timers st' t' = timers st t'))
      \<and> (\<forall>q. q \<noteq> p \<longrightarrow> debounceMap st' q = None \<or> debounceMap st' q = debounceMap st q)
      \<and> calls st' = calls st \<and> nextTimer st \<le> nextTimer st')"

text \<open>
  \<open>oneNewTimerAt st st' p\<close>: going from \<open>st\<close> to \<open>st'\<close> has armed exactly one timer that is
  live in \<open>st'\<close> (every other live timer of \<open>st'\<close> was live in \<open>st\<close>), no call of processAliases
  has been made, the entry of that timer is the one stored under \<open>p\<close>, the other paths hold
  no entry that \<open>st\<close> did not hold, and when the timer fires it calls processAliases once,
  with the path \<open>p\<close> and the queue of the entry, and removes the entry. The timers that were
  live in \<open>st\<close> already are not constrained.
\<close>

definition oneNewTimerAt :: "plugin \<Rightarrow> plugin \<Rightarrow> string \<Rightarrow> bool" where
  "oneNewTimerAt st st' p =
     (\<exists>t r. timers st t = None \<and> timers st' t = Some r
        \<and> (\<forall>t'. t' \<noteq> t \<longrightarrow> timers st' t' = None \<or> timers st' t' = timers st t')
        \<and> debounceMap st' p = Some r
        \<and> (\<forall>q. q \<noteq> p \<longrightarrow> debounceMap st' q = None \<or> debounceMap st' q = debounceMap st q)
        \<and> calls st' = calls st
        \<and> calls (fireTimer st' t) = calls st @ [(p, queue (heap st' r))]
        \<and> debounceMap (fireTimer st' t) p = None)"

section \<open>Default settings and an instance of the platform\<close>

text \<open>DEFAULT_SETTINGS of main.ts; the third pattern is \<^verbatim>\<open>^Untitled \d+$\<close>. The same values
  with the tracking setting left open serve the revision where that setting is a string.\<close>

definition defaultsWith :: "'t \<Rightarrow> 't settings" where
  "defaultsWith tracking =
     \<lparr>ignoreRegexes = [''^_'', ''^Untitled$'', ''^Untitled '' @ [CHR 0x5C] @ ''d+$''],
      timeoutSeconds = 5, caseSensitive = False, autoCreateFrontmatter = True,
      includeFolders = [], excludeFolders = [], fileExtensions = [''md''],
      trackFolderRenames = tracking\<rparr>"

definition DEFAULT_SETTINGS :: "bool settings" where
  "DEFAULT_SETTINGS = defaultsWith False"

text \<open>
  An instance of the platform, used only to evaluate the model at concrete inputs. The
  inputs it is used on are made of ASCII characters and of the three default patterns,
  where it gives what the platform gives: \<open>asciiLower\<close> maps the letters A to Z,
  \<open>asciiTrim\<close> strips the six ASCII white-space characters, and \<open>defaultPatterns\<close> knows the
  three default patterns (every other pattern string is outside the instance and is
  answered like a pattern that does not compile). No theorem about the model depends on
  this instance, except the evaluations that name it.
\<close>

definition asciiLowerChar :: "char \<Rightarrow> char" where
  "asciiLowerChar c =
     (case map_of (zip ''ABCDEFGHIJKLMNOPQRSTUVWXYZ'' ''abcdefghijklmnopqrstuvwxyz'') c of
        None \<Rightarrow> c | Some l \<Rightarrow> l)"

definition asciiLower :: "string \<Rightarrow> string" where
  "asciiLower str = map asciiLowerChar str"

definition asciiSpace :: "char \<Rightarrow> bool" where
  "asciiSpace c = (c \<in> set [CHR '' '', CHR 0x09, CHR 0x0A, CHR 0x0B, CHR 0x0C, CHR 0x0D])"

definition asciiTrim :: "string \<Rightarrow> string" where
  "asciiTrim str = rev (dropWhile asciiSpace (rev (dropWhile asciiSpace str)))"

definition isDigit :: "char \<Rightarrow> bool" where
  "isDigit c = (c \<in> set ''0123456789'')"

definition defaultPatterns :: "string \<Rightarrow> regexp option" where
  "defaultPatterns str =
     (if str = ''^_'' then Some (\<lambda>name. prefix ''_'' name)
      else if str = ''^Untitled$'' then Some (\<lambda>name. name = ''Untitled'')
      else if str = ''^Untitled '' @ [CHR 0x5C] @ ''d+$''
        then Some (\<lambda>name. prefix ''Untitled '' name \<and> drop 9 name \<noteq> []
                           \<and> list_all isDigit (drop 9 name))
      else None)"

definition ascii :: platform where
  "ascii = \<lparr>newRegExp = defaultPatterns, toLowerCase = asciiLower, trim = asciiTrim\<rparr>"

section \<open>Inputs for evaluation\<close>

text \<open>Inputs for evaluating the settlement: a vault with the single file \<^verbatim>\<open>new.md\<close>, whose
  front matter has a title and, under the alias key, the value given.\<close>

definition exampleFile :: "fmvalue option \<Rightarrow> vfile" where
  "exampleFile a =
     \<lparr>handle = \<lparr>path = ''new.md'', basename = ''new'', extension = ''md''\<rparr>,
      frontmatter = (Map.empty(''title'' \<mapsto> NonArray ''Hello''))(''aliases'' := a)\<rparr>"

definition exampleVault :: "fmvalue option \<Rightarrow> vault" where
  "exampleVault a = Map.empty(''new.md'' \<mapsto> exampleFile a)"

text \<open>File handles for evaluation: the markdown file of a given path and basename.\<close>

definition md :: "string \<Rightarrow> string \<Rightarrow> tfile" where
  "md p b = \<lparr>path = p, basename = b, extension = ''md''\<rparr>"

text \<open>
  Events for evaluation. In \<open>staleEntryTrace\<close> a first file is renamed from \<^verbatim>\<open>a.md\<close> to
  \<^verbatim>\<open>b.md\<close> and then moved to \<^verbatim>\<open>sub/b.md\<close> (a folder change, not queued while folder
  tracking is off, so that its entry stays under \<^verbatim>\<open>b.md\<close>); a second file is renamed from
  \<^verbatim>\<open>c.md\<close> to \<^verbatim>\<open>d.md\<close> and then to the path \<^verbatim>\<open>b.md\<close> that the first file has left. No timer
  fires in between. \<open>staleTimerTrace\<close> starts in the same way; the second file is renamed
  from \<^verbatim>\<open>w.md\<close> to \<^verbatim>\<open>b.md\<close>, the timer of the first file fires, and the second file is
  renamed to \<^verbatim>\<open>z.md\<close> before its own timer fires; then the remaining timers fire.
  \<open>pendingExample\<close> is the state after the first event of either trace, and \<open>staleExample\<close>
  the state after the first three events of \<open>staleEntryTrace\<close>.
\<close>

definition staleEntryTrace :: "event list" where
  "staleEntryTrace =
     [Rename (TFile (md ''b.md'' ''b'')) ''a.md'',
      Rename (TFile (md ''sub/b.md'' ''b'')) ''b.md'',
      Rename (TFile (md ''d.md'' ''d'')) ''c.md'',
      Rename (TFile (md ''b.md'' ''b'')) ''d.md'']"

definition staleTimerTrace :: "event list" where
  "staleTimerTrace =
     [Rename (TFile (md ''b.md'' ''b'')) ''a.md'',
      Rename (TFile (md ''sub/b.md'' ''b'')) ''b.md'',
      Rename (TFile (md ''b.md'' ''b'')) ''w.md'',
      Fire 1,
      Rename (TFile (md ''z.md'' ''z'')) ''b.md'',
      Fire 2,
      Fire 3]"

definition pendingExample :: plugin where
  "pendingExample =
     \<lparr>heap = (\<lambda>r. \<lparr>queue = [], timeoutId = None, currentPath = []\<rparr>)
               (0 := \<lparr>queue = [''a''], timeoutId = Some 1, currentPath = ''b.md''\<rparr>),
      nextRef = 1, debounceMap = Map.empty(''b.md'' \<mapsto> 0), timers = Map.empty(1 \<mapsto> 0),
      nextTimer = 2, calls = []\<rparr>"

definition staleExample :: plugin where
  "staleExample =
     \<lparr>heap = (\<lambda>r. \<lparr>queue = [], timeoutId = None, currentPath = []\<rparr>)
               (0 := \<lparr>queue = [''a''], timeoutId = Some 1, currentPath = ''b.md''\<rparr>,
                1 := \<lparr>queue = [''c''], timeoutId = Some 2, currentPath = ''d.md''\<rparr>),
      nextRef = 2, debounceMap = Map.empty(''b.md'' \<mapsto> 0, ''d.md'' \<mapsto> 1),
      timers = Map.empty(1 \<mapsto> 0, 2 \<mapsto> 1), nextTimer = 3, calls = []\<rparr>"

section \<open>Properties of the path utilities\<close>

lemma splitOn_not_empty: "splitOn sep acc p \<noteq> []"
  by (induction p arbitrary: acc) auto

lemma splitOn_no_separator: "sep \<notin> set seg \<Longrightarrow> splitOn sep acc seg = [rev acc @ seg]"
  by (induction seg arbitrary: acc) auto

lemma last_splitOn: "sep \<notin> set seg \<Longrightarrow> last (splitOn sep acc (pre @ sep # seg)) = seg"
  by (induction pre arbitrary: acc) (auto simp: splitOn_no_separator splitOn_not_empty)

text \<open>The last segment of a path is what follows its last slash.\<close>

lemma last_segment:
  assumes "p = pre @ seg" "CHR ''/'' \<notin> set seg" "pre = [] \<or> last pre = CHR ''/''"
  shows "orEmpty (fst (pop (splitSlash p))) = seg"
proof (cases "pre = []")
  case True
  with assms show ?thesis
    by (simp add: splitSlash_def splitOn_no_separator pop_def orEmpty_def)
next
  case False
  with assms(3) have "pre = butlast pre @ [CHR ''/'']"
    by (metis append_butlast_last_id)
  with assms(1) have "p = butlast pre @ CHR ''/'' # seg"
    by (metis append_Cons append_Nil append_assoc)
  with assms(2) have "last (splitSlash p) = seg"
    by (simp add: splitSlash_def last_splitOn)
  then show ?thesis
    by (simp add: pop_def orEmpty_def splitSlash_def splitOn_not_empty)
qed

text \<open>Every path splits in this way, so the characterisation below covers every path.\<close>

lemma path_decomposition:
  "\<exists>pre seg. p = pre @ seg \<and> CHR ''/'' \<notin> set seg \<and> (pre = [] \<or> last pre = CHR ''/'')"
proof (induction p rule: rev_induct)
  case Nil
  then show ?case by simp
next
  case (snoc c cs)
  show ?case
  proof (cases "c = CHR ''/''")
    case True
    then have "cs @ [c] = (cs @ [c]) @ [] \<and> CHR ''/'' \<notin> set [] \<and> last (cs @ [c]) = CHR ''/''"
      by simp
    then show ?thesis by blast
  next
    case False
    from snoc obtain pre seg where
      "cs = pre @ seg" "CHR ''/'' \<notin> set seg" "pre = [] \<or> last pre = CHR ''/''" by blast
    with False have "cs @ [c] = pre @ (seg @ [c]) \<and> CHR ''/'' \<notin> set (seg @ [c])
        \<and> (pre = [] \<or> last pre = CHR ''/'')" by simp
    then show ?thesis by blast
  qed
qed

lemma stripExtension_ext:
  assumes "CHR ''.'' \<notin> set ext" "ext \<noteq> []" "CHR ''/'' \<notin> set ext"
  shows "stripExtension (stem @ CHR ''.'' # ext) = stem"
proof -
  have "takeWhile (\<lambda>c. c \<noteq> CHR ''.'') (rev ext @ CHR ''.'' # rev stem) = rev ext"
    using assms(1) takeWhile_append2 [of "rev ext" "\<lambda>c. c \<noteq> CHR ''.''" "CHR ''.'' # rev stem"]
    by auto
  then show ?thesis
    using assms by (simp add: stripExtension_def)
qed

lemma stripExtension_no_dot: "CHR ''.'' \<notin> set name \<Longrightarrow> stripExtension name = name"
  by (simp add: stripExtension_def)

lemma stripExtension_trailing_dot: "stripExtension (stem @ ''.'') = stem @ ''.''"
  by (simp add: stripExtension_def)

lemma stripExtension_prefix: "prefix (stripExtension name) name"
  by (simp add: stripExtension_def Let_def take_is_prefix)

text \<open>
  Claim C9, as stated: getBasename takes the last segment and strips the text from the
  final dot of that segment to its end. The code does not do so for a segment that ends
  in a dot: the pattern asks for at least one character after the dot, so that
  \<^verbatim>\<open>getBasename("notes/a.")\<close> is \<^verbatim>\<open>"a."\<close> and not \<^verbatim>\<open>"a"\<close>.
\<close>

theorem getBasename_trailing_dot_counterexample:
  "getBasename ''notes/a.'' = ''a.'' \<and> getBasename ''notes/a.'' \<noteq> ''a''"
  by (simp add: getBasename_def splitSlash_def pop_def orEmpty_def stripExtension_def)

text \<open>
  Claim C9, amended: let \<open>seg\<close> be the last segment of the path \<open>p\<close> (what follows its
  last slash). When the final dot of \<open>seg\<close> is followed by at least one character,
  getBasename returns the text before that dot; when \<open>seg\<close> has no dot, or ends in a dot,
  it returns \<open>seg\<close> whole. In every case the result is a prefix of \<open>seg\<close>, so no character
  before the last segment is touched. getBasename is a total function without a failure
  case.
\<close>

theorem getBasename_strips_one_extension:
  assumes "p = pre @ seg" "CHR ''/'' \<notin> set seg" "pre = [] \<or> last pre = CHR ''/''"
  shows "(seg = stem @ CHR ''.'' # ext \<and> CHR ''.'' \<notin> set ext \<and> ext \<noteq> []
            \<longrightarrow> getBasename p = stem)
       \<and> (CHR ''.'' \<notin> set seg \<longrightarrow> getBasename p = seg)
       \<and> (seg = stem @ ''.'' \<longrightarrow> getBasename p = seg)
       \<and> prefix (getBasename p) seg"
proof -
  have b: "getBasename p = stripExtension seg"
    using last_segment [OF assms] by (simp add: getBasename_def)
  have "seg = stem @ CHR ''.'' # ext \<Longrightarrow> CHR ''.'' \<notin> set ext \<Longrightarrow> ext \<noteq> []
       \<Longrightarrow> stripExtension seg = stem"
    using assms(2) by (simp add: stripExtension_ext)
  moreover have "CHR ''.'' \<notin> set seg \<Longrightarrow> stripExtension seg = seg"
    by (rule stripExtension_no_dot)
  moreover have "seg = stem @ ''.'' \<Longrightarrow> stripExtension seg = seg"
    by (simp add: stripExtension_trailing_dot)
  ultimately show ?thesis
    unfolding b using stripExtension_prefix [of seg] by blast
qed

theorem getBasename_strips_one_extension_witness:
  "getBasename ''a/b.c.md'' = ''b.c'' \<and> getBasename ''a/readme'' = ''readme''
   \<and> getBasename ''a/b.'' = ''b.''"
  using getBasename_strips_one_extension [of "''a/b.c.md''" "''a/''" "''b.c.md''" "''b.c''" "''md''"]
    getBasename_strips_one_extension [of "''a/readme''" "''a/''" "''readme''" "[]" "[]"]
    getBasename_strips_one_extension [of "''a/b.''" "''a/''" "''b.''" "''b''" "[]"]
  by simp

section \<open>Properties of the scope filter\<close>


lemma includes_slash: "includes_str s ''/'' \<longleftrightarrow> CHR ''/'' \<in> set s"
  by (induction s) auto

lemma startsWith_iff: "startsWith s (pre @ ''/'') \<longleftrightarrow> (\<exists>rest. s = pre @ ''/'' @ rest)"
  by (auto simp: startsWith_def prefix_def)

text \<open>
  Claim C7, as stated, says of every folder spec that does not reduce to the empty string
  or to a slash that the predicate compares the path with the spec. A spec that holds a
  token and more is compared after the tokens are removed: the path \<^verbatim>\<open>notes/a.md\<close> is in the
  folder \<^verbatim>\<open>notes{root}\<close>, though it neither equals that spec nor starts with it.
\<close>

theorem isPathInFolder_counterexample:
  "stripTokens ''notes{root}'' \<noteq> [] \<and> stripTokens ''notes{root}'' \<noteq> ''/''
   \<and> isPathInFolder ''notes/a.md'' ''notes{root}''
   \<and> \<not> (''notes/a.md'' = ''notes{root}'' \<or> startsWith ''notes/a.md'' (''notes{root}'' @ ''/''))"
  by (simp add: isPathInFolder_def startsWith_def)

text \<open>
  Claim C7, amended. For a folder spec that contains a root token and is empty or a slash
  once the tokens are removed, isPathInFolder holds exactly for the paths without a slash.
  For a spec that contains a token and is anything else once the tokens are removed, it
  holds exactly when the path equals the spec without its tokens or starts with that
  followed by a slash. For a spec without a token (the empty string and a lone slash
  included), it holds exactly when the path equals the spec or starts with the spec
  followed by a slash.
\<close>

theorem isPathInFolder_scope:
  "((includes_str folder ''{vault}'' \<or> includes_str folder ''{root}'')
      \<and> (stripTokens folder = [] \<or> stripTokens folder = ''/'')
      \<longrightarrow> (isPathInFolder p folder \<longleftrightarrow> CHR ''/'' \<notin> set p))
   \<and> ((includes_str folder ''{vault}'' \<or> includes_str folder ''{root}'')
      \<and> stripTokens folder \<noteq> [] \<and> stripTokens folder \<noteq> ''/''
      \<longrightarrow> (isPathInFolder p folder \<longleftrightarrow>
            p = stripTokens folder \<or> (\<exists>rest. p = stripTokens folder @ ''/'' @ rest)))
   \<and> (\<not> includes_str folder ''{vault}'' \<and> \<not> includes_str folder ''{root}''
      \<longrightarrow> (isPathInFolder p folder \<longleftrightarrow> p = folder \<or> (\<exists>rest. p = folder @ ''/'' @ rest)))"
  by (auto simp: isPathInFolder_def Let_def includes_slash startsWith_iff)

theorem isPathInFolder_scope_witness:
  "isPathInFolder ''b.md'' ''{vault}'' \<and> \<not> isPathInFolder ''a/b.md'' ''{vault}''
   \<and> isPathInFolder ''b.md'' ''{root}'' \<and> \<not> isPathInFolder ''a/b.md'' ''{root}''
   \<and> isPathInFolder ''notes/a.md'' ''{vault}notes'' \<and> isPathInFolder ''notes/a.md'' ''notes''
   \<and> \<not> isPathInFolder ''notes2/a.md'' ''notes''"
  using isPathInFolder_scope [of "''{vault}''" "''b.md''"]
    isPathInFolder_scope [of "''{vault}''" "''a/b.md''"]
    isPathInFolder_scope [of "''{root}''" "''b.md''"]
    isPathInFolder_scope [of "''{root}''" "''a/b.md''"]
    isPathInFolder_scope [of "''{vault}notes''" "''notes/a.md''"]
    isPathInFolder_scope [of "''notes''" "''notes/a.md''"]
    isPathInFolder_scope [of "''notes''" "''notes2/a.md''"]
  by simp

section \<open>Properties of the classification\<close>

lemma toQueue_not_empty: "toQueue js s tr f oldPath = Some c \<Longrightarrow> c \<noteq> []"
  by (auto simp: toQueue_def Let_def split: if_splits)

lemma toQueue_name_change:
  assumes "isNameChange js s (getBasename oldPath) (basename f)"
  shows "toQueue js s tr f oldPath =
     (if extension f \<in> set (fileExtensions s) \<and> \<not> outOfScope s (path f)
         \<and> \<not> someTest (compileAll (newRegExp js) (ignoreRegexes s)) (getBasename oldPath)
         \<and> \<not> someTest (compileAll (newRegExp js) (ignoreRegexes s)) (basename f)
         \<and> getBasename oldPath \<noteq> []
      then Some (getBasename oldPath) else None)"
  using assms by (auto simp: toQueue_def Let_def)

lemma toQueue_no_change:
  assumes "\<not> isNameChange js s (getBasename oldPath) (basename f)"
    "getImmediateParentName oldPath = getImmediateParentName (path f)"
  shows "toQueue js s tr f oldPath = None"
  using assms by (simp add: toQueue_def Let_def isFolderChange_def)

lemma toQueue_folder_change:
  assumes "\<not> isNameChange js s (getBasename oldPath) (basename f)"
  shows "toQueue js s tr f oldPath =
     (if extension f \<in> set (fileExtensions s) \<and> tr
         \<and> getImmediateParentName oldPath \<noteq> getImmediateParentName (path f)
         \<and> getImmediateParentName oldPath \<noteq> [] \<and> getImmediateParentName (path f) \<noteq> []
         \<and> \<not> someTest (compileAll (newRegExp js) (ignoreRegexes s))
               (getImmediateParentName oldPath)
         \<and> \<not> someTest (compileAll (newRegExp js) (ignoreRegexes s))
               (getImmediateParentName (path f))
      then Some (getImmediateParentName oldPath) else None)"
  using assms by (simp add: toQueue_def Let_def isFolderChange_def)


lemma someTest_iff:
  "someTest (compileAll construct strs) name \<longleftrightarrow>
     (\<exists>str \<in> set strs. \<exists>re. construct str = Some re \<and> re name)"
  by (induction strs) (auto simp: someTest_def compileAll_def split: option.splits)

lemma handleRename_TFile:
  "handleRename js s (TFile f) oldPath st =
     (case toQueue js s (trackFolderRenames s) f oldPath of
        None \<Rightarrow> st | Some name \<Rightarrow> enqueue st oldPath (path f) name)"
  by (simp add: handleRename_def trackingToggle_def)



lemma isNameChange_folders [simp]:
  "isNameChange js (s\<lparr>includeFolders := inc, excludeFolders := exc\<rparr>) a b
     = isNameChange js s a b"
  by (simp add: isNameChange_def)

lemma trackingFilename_folders [simp]:
  "trackingFilename js (s\<lparr>includeFolders := inc, excludeFolders := exc\<rparr>) f
     = trackingFilename js s f"
  by (simp add: trackingFilename_def)

text \<open>The queue step does queue: after it, the entry under the new path is pending with
  the timer just armed and holds the name. In the latest revision this is so when no
  entry is found under either path (an entry that is found hands on its own first name
  instead).\<close>

lemma enqueue_queuedAt:
  "queuedAt (enqueue st oldPath newPath name) (nextTimer st) newPath name"
  by (cases "debounceMap st oldPath")
     (simp_all add: queuedAt_def pendingFor_def enqueue_def Let_def setAdd_def)


lemma queuedAt_fire:
  assumes "queuedAt st t p name"
  shows "\<exists>q. calls (fireTimer st t) = calls st @ [(p, q)] \<and> name \<in> set q"
  using assms by (auto simp: queuedAt_def pendingFor_def fireTimer_def Let_def)

lemma path_eval:
  "getBasename ''note.md'' = ''note''" "getBasename ''a/note.md'' = ''note''"
  "getBasename ''posts/note.md'' = ''note''" "getBasename ''a.md'' = ''a''"
  "getImmediateParentName ''note.md'' = []" "getImmediateParentName ''Note.md'' = []"
  "getImmediateParentName ''a/note.md'' = ''a''" "getImmediateParentName ''b/Note.md'' = ''b''"
  "getImmediateParentName ''posts/note.md'' = ''posts''"
  "getImmediateParentName ''posts-1/note.md'' = ''posts-1''"
  "getImmediateParentName ''a.md'' = []" "getImmediateParentName ''b.md'' = []"
  by (simp_all add: getBasename_def getImmediateParentName_def splitSlash_def pop_def
      orEmpty_def stripExtension_def)

lemma ascii_eval:
  "toLowerCase ascii = asciiLower" "trim ascii = asciiTrim" "newRegExp ascii = defaultPatterns"
  "asciiLower ''note'' = ''note''" "asciiLower ''Note'' = ''note''"
  "asciiLower ''a'' = ''a''" "asciiLower ''b'' = ''b''"
  by (simp_all add: ascii_def asciiLower_def asciiLowerChar_def)

lemma defaults_eval:
  "caseSensitive (defaultsWith tr) = False" "fileExtensions (defaultsWith tr) = [''md'']"
  "includeFolders (defaultsWith tr) = []" "excludeFolders (defaultsWith tr) = []"
  "trackFolderRenames (defaultsWith tr) = tr"
  "autoCreateFrontmatter (defaultsWith tr) = True"
  by (simp_all add: defaultsWith_def)

lemma defaultPatterns_eval:
  "someTest (compileAll defaultPatterns (ignoreRegexes (defaultsWith tr))) name
   \<longleftrightarrow> prefix ''_'' name \<or> name = ''Untitled''
       \<or> (prefix ''Untitled '' name \<and> drop 9 name \<noteq> [] \<and> list_all isDigit (drop 9 name))"
  by (simp add: someTest_def compileAll_def List.map_filter_simps defaultPatterns_def
      defaultsWith_def)

text \<open>
  Claim C6, as stated, takes every rename whose basenames differ only in letter case for
  a no-op when the setting is not case sensitive. The handler then looks at the parent
  folders: with folder tracking on, moving \<^verbatim>\<open>a/note.md\<close> to \<^verbatim>\<open>b/Note.md\<close> is a folder change
  and queues the name \<^verbatim>\<open>a\<close>, which the timer then hands to processAliases.
\<close>

theorem case_only_rename_counterexample:
  "toLowerCase ascii (getBasename ''a/note.md'') = toLowerCase ascii ''Note''
   \<and> getBasename ''a/note.md'' \<noteq> ''Note''
   \<and> \<not> caseSensitive (DEFAULT_SETTINGS\<lparr>trackFolderRenames := True\<rparr>)
   \<and> isFolderChange ascii (DEFAULT_SETTINGS\<lparr>trackFolderRenames := True\<rparr>)
        \<lparr>path = ''b/Note.md'', basename = ''Note'', extension = ''md''\<rparr> ''a/note.md''
   \<and> handleRename ascii (DEFAULT_SETTINGS\<lparr>trackFolderRenames := True\<rparr>)
        (TFile \<lparr>path = ''b/Note.md'', basename = ''Note'', extension = ''md''\<rparr>) ''a/note.md''
        initial
      = enqueue initial ''a/note.md'' ''b/Note.md'' ''a''
   \<and> handleRename ascii (DEFAULT_SETTINGS\<lparr>trackFolderRenames := True\<rparr>)
        (TFile \<lparr>path = ''b/Note.md'', basename = ''Note'', extension = ''md''\<rparr>) ''a/note.md''
        initial
      \<noteq> initial
   \<and> debounceMap (enqueue initial ''a/note.md'' ''b/Note.md'' ''a'') ''b/Note.md'' = Some 0
   \<and> timers (enqueue initial ''a/note.md'' ''b/Note.md'' ''a'') 1 = Some 0
   \<and> queue (heap (enqueue initial ''a/note.md'' ''b/Note.md'' ''a'') 0) = [''a'']
   \<and> calls (fireTimer (enqueue initial ''a/note.md'' ''b/Note.md'' ''a'') 1)
      = [(''b/Note.md'', [''a''])]"
  by (simp add: handleRename_TFile toQueue_def Let_def isNameChange_def isFolderChange_def
      DEFAULT_SETTINGS_def defaults_eval path_eval ascii_eval outOfScope_def
      defaultPatterns_eval isDigit_def enqueue_def initial_def setAdd_def
      clearTimeout_def fireTimer_def)

text \<open>
  Claim C6, amended. For a rename whose old and new basenames differ only in letter case
  (they differ, and \<^verbatim>\<open>toLowerCase\<close> makes them equal):

  \<^item> when the setting is not case sensitive and the immediate parent folder names are
    equal, the event is neither a name change nor a folder change and the handler leaves
    the state as it is;
  \<^item> when the setting is not case sensitive and the immediate parent folder names differ,
    the event is a folder change and no name change, and the handler queues the old
    parent folder name if the extension is tracked, folder tracking is on, neither parent
    name is empty and no ignore pattern matches either of them, and leaves the state as
    it is otherwise;
  \<^item> when the setting is case sensitive, the event is a name change and no folder
    change, and the handler queues the old basename if the extension is tracked, the new
    path is in scope, no ignore pattern matches the old or the new basename and the old
    basename is not empty, and leaves the state as it is otherwise;
  \<^item> where the handler queues a name, the entry stored under the new path is pending
    with the timer just armed and holds that name in its queue.

  This holds for every platform, whatever letters its \<^verbatim>\<open>toLowerCase\<close> maps.
\<close>

theorem case_only_rename:
  assumes "toLowerCase js (getBasename oldPath) = toLowerCase js (basename f)"
    and "getBasename oldPath \<noteq> basename f"
  shows "(\<not> caseSensitive s
          \<and> getImmediateParentName oldPath = getImmediateParentName (path f)
          \<longrightarrow> \<not> isNameChange js s (getBasename oldPath) (basename f)
              \<and> \<not> isFolderChange js s f oldPath
              \<and> handleRename js s (TFile f) oldPath st = st)
       \<and> (\<not> caseSensitive s
          \<and> getImmediateParentName oldPath \<noteq> getImmediateParentName (path f)
          \<longrightarrow> \<not> isNameChange js s (getBasename oldPath) (basename f)
              \<and> isFolderChange js s f oldPath
              \<and> handleRename js s (TFile f) oldPath st =
                  (if extension f \<in> set (fileExtensions s) \<and> trackFolderRenames s
                      \<and> getImmediateParentName oldPath \<noteq> []
                      \<and> getImmediateParentName (path f) \<noteq> []
                      \<and> \<not> someTest (compileAll (newRegExp js) (ignoreRegexes s))
                            (getImmediateParentName oldPath)
                      \<and> \<not> someTest (compileAll (newRegExp js) (ignoreRegexes s))
                            (getImmediateParentName (path f))
                   then enqueue st oldPath (path f) (getImmediateParentName oldPath)
                   else st))
       \<and> (caseSensitive s
          \<longrightarrow> isNameChange js s (getBasename oldPath) (basename f)
              \<and> \<not> isFolderChange js s f oldPath
              \<and> handleRename js s (TFile f) oldPath st =
                  (if extension f \<in> set (fileExtensions s) \<and> \<not> outOfScope s (path f)
                      \<and> \<not> someTest (compileAll (newRegExp js) (ignoreRegexes s))
                            (getBasename oldPath)
                      \<and> \<not> someTest (compileAll (newRegExp js) (ignoreRegexes s))
                            (basename f)
                      \<and> getBasename oldPath \<noteq> []
                   then enqueue st oldPath (path f) (getBasename oldPath) else st))
       \<and> queuedAt (enqueue st oldPath (path f) name) (nextTimer st) (path f) name"
proof (intro conjI impI)
  assume a: "\<not> caseSensitive s
    \<and> getImmediateParentName oldPath = getImmediateParentName (path f)"
  with assms(1) show n: "\<not> isNameChange js s (getBasename oldPath) (basename f)"
    by (simp add: isNameChange_def)
  from a show "\<not> isFolderChange js s f oldPath" by (simp add: isFolderChange_def)
  from a n show "handleRename js s (TFile f) oldPath st = st"
    by (simp add: handleRename_TFile toQueue_no_change)
next
  assume a: "\<not> caseSensitive s
    \<and> getImmediateParentName oldPath \<noteq> getImmediateParentName (path f)"
  with assms(1) show n: "\<not> isNameChange js s (getBasename oldPath) (basename f)"
    by (simp add: isNameChange_def)
  from a n show "isFolderChange js s f oldPath" by (simp add: isFolderChange_def)
  from a n show "handleRename js s (TFile f) oldPath st =
      (if extension f \<in> set (fileExtensions s) \<and> trackFolderRenames s
          \<and> getImmediateParentName oldPath \<noteq> []
          \<and> getImmediateParentName (path f) \<noteq> []
          \<and> \<not> someTest (compileAll (newRegExp js) (ignoreRegexes s))
                (getImmediateParentName oldPath)
          \<and> \<not> someTest (compileAll (newRegExp js) (ignoreRegexes s))
                (getImmediateParentName (path f))
       then enqueue st oldPath (path f) (getImmediateParentName oldPath)
       else st)"
    by (simp add: handleRename_TFile toQueue_folder_change)
next
  assume c: "caseSensitive s"
  with assms(2) show n: "isNameChange js s (getBasename oldPath) (basename f)"
    by (simp add: isNameChange_def)
  then show "\<not> isFolderChange js s f oldPath" by (simp add: isFolderChange_def)
  from n show "handleRename js s (TFile f) oldPath st =
      (if extension f \<in> set (fileExtensions s) \<and> \<not> outOfScope s (path f)
          \<and> \<not> someTest (compileAll (newRegExp js) (ignoreRegexes s)) (getBasename oldPath)
          \<and> \<not> someTest (compileAll (newRegExp js) (ignoreRegexes s)) (basename f)
          \<and> getBasename oldPath \<noteq> []
       then enqueue st oldPath (path f) (getBasename oldPath) else st)"
    by (simp add: handleRename_TFile toQueue_name_change)
next
  show "queuedAt (enqueue st oldPath (path f) name) (nextTimer st) (path f) name"
    by (rule enqueue_queuedAt)
qed

theorem case_only_rename_witness:
  "toLowerCase ascii (getBasename ''note.md'') = toLowerCase ascii ''Note''
   \<and> getBasename ''note.md'' \<noteq> ''Note''
   \<and> toLowerCase ascii (getBasename ''a/note.md'') = toLowerCase ascii ''Note''
   \<and> getBasename ''a/note.md'' \<noteq> ''Note''
   \<and> handleRename ascii DEFAULT_SETTINGS
        (TFile \<lparr>path = ''Note.md'', basename = ''Note'', extension = ''md''\<rparr>) ''note.md'' initial
      = initial
   \<and> isFolderChange ascii (DEFAULT_SETTINGS\<lparr>trackFolderRenames := True\<rparr>)
        \<lparr>path = ''b/Note.md'', basename = ''Note'', extension = ''md''\<rparr> ''a/note.md''
   \<and> handleRename ascii (DEFAULT_SETTINGS\<lparr>trackFolderRenames := True\<rparr>)
        (TFile \<lparr>path = ''b/Note.md'', basename = ''Note'', extension = ''md''\<rparr>) ''a/note.md''
        initial
      = enqueue initial ''a/note.md'' ''b/Note.md'' ''a''
   \<and> queuedAt (enqueue initial ''a/note.md'' ''b/Note.md'' ''a'') 1 ''b/Note.md'' ''a''
   \<and> isNameChange ascii (DEFAULT_SETTINGS\<lparr>caseSensitive := True\<rparr>)
        (getBasename ''note.md'') ''Note''
   \<and> handleRename ascii (DEFAULT_SETTINGS\<lparr>caseSensitive := True\<rparr>)
        (TFile \<lparr>path = ''Note.md'', basename = ''Note'', extension = ''md''\<rparr>) ''note.md'' initial
      = enqueue initial ''note.md'' ''Note.md'' ''note''
   \<and> queuedAt (enqueue initial ''note.md'' ''Note.md'' ''note'') 1 ''Note.md'' ''note''"
  using case_only_rename [where oldPath = "''note.md''"
      and f = "\<lparr>path = ''Note.md'', basename = ''Note'', extension = ''md''\<rparr>"
      and s = DEFAULT_SETTINGS and js = ascii and st = initial and name = "''note''"]
    case_only_rename [where oldPath = "''a/note.md''"
      and f = "\<lparr>path = ''b/Note.md'', basename = ''Note'', extension = ''md''\<rparr>"
      and s = "DEFAULT_SETTINGS\<lparr>trackFolderRenames := True\<rparr>" and js = ascii
      and st = initial and name = "''a''"]
    case_only_rename [where oldPath = "''note.md''"
      and f = "\<lparr>path = ''Note.md'', basename = ''Note'', extension = ''md''\<rparr>"
      and s = "DEFAULT_SETTINGS\<lparr>caseSensitive := True\<rparr>" and js = ascii
      and st = initial and name = "''note''"]
  by (simp add: path_eval ascii_eval DEFAULT_SETTINGS_def defaults_eval outOfScope_def
      defaultPatterns_eval isDigit_def initial_def)






section \<open>Properties of the settlement\<close>

lemma pushNew_pushed:
  "pushNew js s aliases existing names
     = aliases @ map JString (pushed js s {n. JString n \<in> existing} names)"
proof (induction names arbitrary: aliases existing)
  case Nil
  then show ?case by simp
next
  case (Cons n ns)
  have i': "{m. m = checkName js s n \<or> JString m \<in> existing}
      = insert (checkName js s n) {m. JString m \<in> existing}"
    by auto
  show ?case
  proof (cases "JString (checkName js s n) \<in> existing")
    case True
    then show ?thesis using Cons [of aliases existing] by simp
  next
    case False
    then show ?thesis
      using Cons [of "aliases @ [JString n]" "insert (JString (checkName js s n)) existing"]
      by (simp add: i')
  qed
qed

lemma pushed_subseq: "subseq (pushed js s seen names) names"
proof (induction names arbitrary: seen)
  case Nil
  then show ?case by simp
next
  case (Cons n ns)
  show ?case
  proof (cases "checkName js s n \<in> seen")
    case True
    then show ?thesis using Cons [of seen] by (simp add: list_emb_Cons)
  next
    case False
    then show ?thesis using Cons [of "insert (checkName js s n) seen"] by simp
  qed
qed

lemma pushed_fresh:
  "n \<in> set (pushed js s seen names) \<Longrightarrow> checkName js s n \<notin> seen"
proof (induction names arbitrary: seen)
  case Nil
  then show ?case by simp
next
  case (Cons m ms)
  show ?case
  proof (cases "checkName js s m \<in> seen")
    case True
    then show ?thesis using Cons by simp
  next
    case False
    show ?thesis
    proof (cases "n = m")
      case True
      with False show ?thesis by simp
    next
      case ne: False
      with False Cons.prems have "n \<in> set (pushed js s (insert (checkName js s m) seen) ms)"
        by simp
      then show ?thesis using Cons.IH by blast
    qed
  qed
qed

lemma pushed_covers:
  "n \<in> set names \<Longrightarrow> checkName js s n \<notin> seen
   \<Longrightarrow> checkName js s n \<in> checkName js s ` set (pushed js s seen names)"
proof (induction names arbitrary: seen)
  case Nil
  then show ?case by simp
next
  case (Cons m ms)
  show ?case
  proof (cases "checkName js s m \<in> seen")
    case True
    with Cons.prems have "n \<in> set ms" by auto
    with True Cons show ?thesis by simp
  next
    case False
    show ?thesis
    proof (cases "checkName js s n = checkName js s m")
      case True
      with False show ?thesis by simp
    next
      case ne: False
      with Cons.prems have "n \<in> set ms" by auto
      moreover from ne Cons.prems
      have "checkName js s n \<notin> insert (checkName js s m) seen"
        by simp
      ultimately have "checkName js s n
          \<in> checkName js s ` set (pushed js s (insert (checkName js s m) seen) ms)"
        using Cons.IH by blast
      with False show ?thesis by simp
    qed
  qed
qed

lemma pushed_distinct: "distinct (map (checkName js s) (pushed js s seen names))"
proof (induction names arbitrary: seen)
  case Nil
  then show ?case by simp
next
  case (Cons m ms)
  show ?case
  proof (cases "checkName js s m \<in> seen")
    case True
    then show ?thesis using Cons by simp
  next
    case False
    have "\<And>n. n \<in> set (pushed js s (insert (checkName js s m) seen) ms)
        \<Longrightarrow> checkName js s n \<noteq> checkName js s m"
      using pushed_fresh [of _ js s "insert (checkName js s m) seen" ms] by blast
    then have "checkName js s m
        \<notin> checkName js s ` set (pushed js s (insert (checkName js s m) seen) ms)"
      by (metis imageE)
    with False show ?thesis using Cons [of "insert (checkName js s m) seen"] by simp
  qed
qed

lemma pushed_first:
  "names \<noteq> [] \<Longrightarrow> checkName js s (hd names) \<notin> seen
   \<Longrightarrow> pushed js s seen names \<noteq> [] \<and> hd (pushed js s seen names) = hd names"
  by (cases names) auto

lemma lowerAll_throws: "y \<in> set ys \<Longrightarrow> \<not> isString y \<Longrightarrow> lowerAll js ys = Inl TypeError"
proof (induction ys)
  case Nil
  then show ?case by simp
next
  case (Cons z zs)
  show ?case
  proof (cases z)
    case (JString a)
    with Cons have "lowerAll js zs = Inl TypeError" by (auto simp: isString_def)
    with JString show ?thesis by simp
  next
    case (JOther t)
    then show ?thesis by simp
  qed
qed

lemma lowerAll_strings:
  "\<forall>y \<in> set ys. isString y
   \<Longrightarrow> lowerAll js ys
       = Inr (map (\<lambda>y. case y of JString a \<Rightarrow> JString (toLowerCase js a)
                          | JOther t \<Rightarrow> JOther t) ys)"
proof (induction ys)
  case Nil
  then show ?case by simp
next
  case (Cons z zs)
  then show ?case by (cases z) (simp_all add: isString_def)
qed

lemma existingSet_throws:
  "\<not> caseSensitive s \<Longrightarrow> y \<in> set ys \<Longrightarrow> \<not> isString y
   \<Longrightarrow> existingSet js s ys = Inl TypeError"
  by (simp add: existingSet_def lowerAll_throws)

lemma normalised_caseSensitive: "caseSensitive s \<Longrightarrow> normalised js s y = y"
  by (cases y) (simp_all add: normalised_def checkName_def)

lemma existingSet_ok:
  assumes "caseSensitive s \<or> (\<forall>y \<in> set ys. isString y)"
  shows "existingSet js s ys = Inr (normalised js s ` set ys)"
proof (cases "caseSensitive s")
  case True
  then show ?thesis by (simp add: existingSet_def normalised_caseSensitive)
next
  case False
  with assms have a: "\<forall>y \<in> set ys. isString y" by simp
  have "normalised js s
      = (\<lambda>y. case y of JString a \<Rightarrow> JString (toLowerCase js a) | JOther t \<Rightarrow> JOther t)"
    using False by (auto simp: normalised_def checkName_def fun_eq_iff split: jsvalue.splits)
  with False show ?thesis by (simp add: existingSet_def lowerAll_strings [OF a])
qed

lemma mergeAliases_throws:
  "\<not> caseSensitive s \<Longrightarrow> y \<in> set ys \<Longrightarrow> \<not> isString y
   \<Longrightarrow> mergeAliases js s ys names = Inl TypeError"
  by (simp add: mergeAliases_def existingSet_throws)

lemma mergeAliases_ok:
  assumes "caseSensitive s \<or> (\<forall>y \<in> set ys. isString y)"
  shows "mergeAliases js s ys names
     = Inr (ys @ map JString
              (pushed js s {n. JString n \<in> normalised js s ` set ys} names))"
  by (simp add: mergeAliases_def existingSet_ok [OF assms] pushNew_pushed)

lemma mergeAliases_Nil:
  "mergeAliases js s [] names = Inr (map JString (pushed js s {} names))"
  using mergeAliases_ok [of s "[]" js names] by simp

lemma mergeAliases_set:
  assumes "mergeAliases js s ys names = Inr zs" "z \<in> set zs"
  shows "z \<in> set ys \<or> (\<exists>n \<in> set names. z = JString n)"
proof -
  obtain ex where zs: "zs = pushNew js s ys ex names"
    using assms(1) by (auto simp: mergeAliases_def split: sum.splits)
  have "n \<in> set names" if "n \<in> set (pushed js s {n. JString n \<in> ex} names)" for n
    using list_emb_set [OF pushed_subseq that] by blast
  with assms(2) show ?thesis unfolding zs pushNew_pushed by auto
qed

lemma processAliases_other:
  "processAliases js s v p names = Inr v' \<Longrightarrow> q \<noteq> p \<Longrightarrow> v' q = v q"
  by (auto simp: processAliases_def Let_def split: option.splits if_splits sum.splits)

lemma processAliases_at:
  assumes "v p = Some file" "toAdd js s (basename (handle file)) names = cands"
    "cands \<noteq> []"
  shows "processAliases js s v p names
     = (case mutator js s cands (frontmatter file) of
          Inl e \<Rightarrow> Inl e
        | Inr fm \<Rightarrow> Inr (v(p \<mapsto> file\<lparr>frontmatter := fm\<rparr>)))"
  using assms by (simp add: processAliases_def)

lemma mutator_other_keys:
  "mutator js s cands fm = Inr fm' \<Longrightarrow> k \<noteq> ''aliases'' \<Longrightarrow> fm' k = fm k"
  by (auto simp: mutator_def split: option.splits fmvalue.splits sum.splits if_splits)

lemma timerCallback_pair:
  "timerCallback js s (st, v) t =
     (case timers st t of
        None \<Rightarrow> (st, v)
      | Some r \<Rightarrow>
          (fireTimer st t,
           case processAliases js s v (currentPath (heap st r)) (queue (heap st r)) of
             Inl e \<Rightarrow> v
           | Inr v' \<Rightarrow> v'))"
  by (simp add: timerCallback_def split: option.splits sum.splits)

lemma mutator_list_ok:
  assumes "fm ''aliases'' = Some (Array ys)"
    and "caseSensitive s \<or> (\<forall>y \<in> set ys. isString y)"
  shows "mutator js s cands fm
     = Inr (fm(''aliases'' \<mapsto> Array (ys @ map JString
              (pushed js s {n. JString n \<in> normalised js s ` set ys} cands))))"
  using assms(1) by (simp add: mutator_def mergeAliases_ok [OF assms(2)])

lemma mutator_list_throws:
  assumes "fm ''aliases'' = Some (Array ys)"
    and "\<not> caseSensitive s" and "y \<in> set ys" and "\<not> isString y"
  shows "mutator js s cands fm = Inl TypeError"
  using assms(1) by (simp add: mutator_def mergeAliases_throws [OF assms(2,3,4)])

text \<open>
  Claim C3 holds of the lists on which the set of the existing aliases can be built, and
  fails on the others. Let a settlement with at least one surviving candidate meet a file
  whose alias key holds a list \<open>ys\<close>.

  \<^item> When the setting is case sensitive, or every entry of \<open>ys\<close> is a string, the list
    becomes \<open>ys\<close> followed by new entries. The new entries are surviving candidates in the
    order of the queue, no two of them equal under the case policy (\<open>checkName\<close>); none of
    them is in \<open>ys\<close> under that policy, and every surviving candidate that is not in \<open>ys\<close>
    under that policy is among them under that policy.
  \<^item> When the setting is not case sensitive (the default) and \<open>ys\<close> has an entry that is
    not a string, as the list \<^verbatim>\<open>[2024]\<close> has, the mutator throws a TypeError before it
    appends anything: processAliases is rejected, no candidate is appended, and the
    callback of the timer leaves the vault as it was.
\<close>

theorem settle_appends_or_throws:
  assumes "v p = Some file"
    and "frontmatter file ''aliases'' = Some (Array ys)"
    and "toAdd js s (basename (handle file)) names = cands"
    and "cands \<noteq> []"
  shows "(caseSensitive s \<or> (\<forall>y \<in> set ys. isString y)
          \<longrightarrow> (\<exists>v' news. processAliases js s v p names = Inr v'
                 \<and> aliasesAt v' p = ys @ map JString news
                 \<and> subseq news cands
                 \<and> distinct (map (checkName js s) news)
                 \<and> (\<forall>n \<in> set news.
                       JString (checkName js s n) \<notin> normalised js s ` set ys)
                 \<and> (\<forall>c \<in> set cands.
                       JString (checkName js s c) \<notin> normalised js s ` set ys
                       \<longrightarrow> checkName js s c \<in> checkName js s ` set news)
                 \<and> (\<forall>c \<in> set cands.
                       JString (checkName js s c) \<in> normalised js s ` set ys
                       \<longrightarrow> c \<notin> set news)))
       \<and> (\<not> caseSensitive s \<and> (\<exists>y \<in> set ys. \<not> isString y)
          \<longrightarrow> mutator js s cands (frontmatter file) = Inl TypeError
              \<and> processAliases js s v p names = Inl TypeError
              \<and> (timers st t = Some r \<and> currentPath (heap st r) = p
                    \<and> queue (heap st r) = names
                  \<longrightarrow> snd (timerCallback js s (st, v) t) = v))"
proof (intro conjI impI)
  assume ok: "caseSensitive s \<or> (\<forall>y \<in> set ys. isString y)"
  let ?seen = "{n. JString n \<in> normalised js s ` set ys}"
  let ?news = "pushed js s ?seen cands"
  let ?v = "v(p \<mapsto> file\<lparr>frontmatter :=
      (frontmatter file)(''aliases'' \<mapsto> Array (ys @ map JString ?news))\<rparr>)"
  have 1: "processAliases js s v p names = Inr ?v"
    using assms
    by (simp add: processAliases_at
        mutator_list_ok [where fm = "frontmatter file" and ys = ys, OF assms(2) ok])
  have 2: "aliasesAt ?v p = ys @ map JString ?news"
    by (simp add: aliasesAt_def)
  have 3: "subseq ?news cands" by (rule pushed_subseq)
  have 4: "distinct (map (checkName js s) ?news)" by (rule pushed_distinct)
  have 5: "\<forall>n \<in> set ?news. JString (checkName js s n) \<notin> normalised js s ` set ys"
    using pushed_fresh [of _ js s ?seen cands] by blast
  have 6: "\<forall>c \<in> set cands. JString (checkName js s c) \<notin> normalised js s ` set ys
      \<longrightarrow> checkName js s c \<in> checkName js s ` set ?news"
    using pushed_covers [of _ cands js s ?seen] by blast
  have 7: "\<forall>c \<in> set cands. JString (checkName js s c) \<in> normalised js s ` set ys
      \<longrightarrow> c \<notin> set ?news"
    using 5 by blast
  from 1 2 3 4 5 6 7
  show "\<exists>v' news. processAliases js s v p names = Inr v'
      \<and> aliasesAt v' p = ys @ map JString news
      \<and> subseq news cands
      \<and> distinct (map (checkName js s) news)
      \<and> (\<forall>n \<in> set news. JString (checkName js s n) \<notin> normalised js s ` set ys)
      \<and> (\<forall>c \<in> set cands. JString (checkName js s c) \<notin> normalised js s ` set ys
            \<longrightarrow> checkName js s c \<in> checkName js s ` set news)
      \<and> (\<forall>c \<in> set cands. JString (checkName js s c) \<in> normalised js s ` set ys
            \<longrightarrow> c \<notin> set news)"
    by (intro exI [of _ ?v] exI [of _ ?news] conjI)
next
  assume bad: "\<not> caseSensitive s \<and> (\<exists>y \<in> set ys. \<not> isString y)"
  then obtain y where y: "y \<in> set ys" "\<not> isString y" by blast
  from bad have cs: "\<not> caseSensitive s" by simp
  show m: "mutator js s cands (frontmatter file) = Inl TypeError"
    by (rule mutator_list_throws [where fm = "frontmatter file" and ys = ys,
          OF assms(2) cs y])
  show p: "processAliases js s v p names = Inl TypeError"
    using assms by (simp add: processAliases_at m)
  assume "timers st t = Some r \<and> currentPath (heap st r) = p \<and> queue (heap st r) = names"
  then show "snd (timerCallback js s (st, v) t) = v"
    using p by (simp add: timerCallback_pair)
qed

text \<open>
  Claim C5: with auto-create off, a settlement on a file with no alias key, or with a value
  under the alias key that is not a list, changes neither the front matter nor the vault,
  and throws nothing; the two cases are treated alike.
\<close>

theorem no_list_no_autocreate:
  assumes "\<not> autoCreateFrontmatter s"
    and "v p = Some file"
    and "frontmatter file ''aliases'' = None \<or> frontmatter file ''aliases'' = Some (NonArray x)"
  shows "mutator js s cands (frontmatter file) = Inr (frontmatter file)
       \<and> processAliases js s v p names = Inr v"
proof -
  have m: "\<And>cs. mutator js s cs (frontmatter file) = Inr (frontmatter file)"
    using assms(1,3) by (auto simp: mutator_def)
  have "v(p \<mapsto> file) = v" using assms(2) by (simp add: fun_upd_idem)
  then have "processAliases js s v p names = Inr v"
    using assms(2) m by (simp add: processAliases_def Let_def)
  with m show ?thesis by blast
qed

text \<open>
  Claim C10: with auto-create on, a settlement with at least one surviving candidate on a
  file whose alias key holds a value that is not a list puts a new list under the key, and
  throws nothing. The list is built from the empty list and the surviving candidates alone
  (it starts with the first of them and holds each of them once under the case policy);
  the value that was there does not enter it.
\<close>

theorem autocreate_replaces_non_list:
  assumes "autoCreateFrontmatter s"
    and "v p = Some file"
    and "frontmatter file ''aliases'' = Some (NonArray x)"
    and "toAdd js s (basename (handle file)) names = cands"
    and "cands \<noteq> []"
  shows "\<exists>v' file' news. processAliases js s v p names = Inr v'
           \<and> v' p = Some file'
           \<and> frontmatter file' ''aliases'' = Some (Array (map JString news))
           \<and> mergeAliases js s [] cands = Inr (map JString news)
           \<and> news \<noteq> [] \<and> hd news = hd cands
           \<and> subseq news cands
           \<and> distinct (map (checkName js s) news)
           \<and> (\<forall>c \<in> set cands. checkName js s c \<in> checkName js s ` set news)"
proof -
  let ?news = "pushed js s {} cands"
  let ?file = "file\<lparr>frontmatter :=
      (frontmatter file)(''aliases'' \<mapsto> Array (map JString ?news))\<rparr>"
  have m: "mutator js s cands (frontmatter file)
      = Inr ((frontmatter file)(''aliases'' \<mapsto> Array (map JString ?news)))"
    using assms(1,3) by (simp add: mutator_def mergeAliases_Nil)
  have 1: "processAliases js s v p names = Inr (v(p \<mapsto> ?file))"
    using assms by (simp add: processAliases_at m)
  have 2: "(v(p \<mapsto> ?file)) p = Some ?file" by simp
  have 3: "frontmatter ?file ''aliases'' = Some (Array (map JString ?news))" by simp
  have 4: "mergeAliases js s [] cands = Inr (map JString ?news)" by (rule mergeAliases_Nil)
  have 5: "?news \<noteq> [] \<and> hd ?news = hd cands"
    using assms(5) pushed_first [of cands js s "{}"] by simp
  have 6: "subseq ?news cands" by (rule pushed_subseq)
  have 7: "distinct (map (checkName js s) ?news)" by (rule pushed_distinct)
  have 8: "\<forall>c \<in> set cands. checkName js s c \<in> checkName js s ` set ?news"
    using pushed_covers [of _ cands js s "{}"] by blast
  from 1 2 3 4 5 6 7 8 show ?thesis by blast
qed

lemma toQueue_not_ignored:
  assumes "someTest (compileAll (newRegExp js) (ignoreRegexes s)) c"
  shows "toQueue js s tr f oldPath \<noteq> Some c"
proof (cases "isNameChange js s (getBasename oldPath) (basename f)")
  case True
  show ?thesis
    unfolding toQueue_name_change [OF True] using assms by (auto split: if_splits)
next
  case False
  show ?thesis
    unfolding toQueue_folder_change [OF False] using assms by (auto split: if_splits)
qed

lemma toQueue_first_not_ignored:
  assumes "someTest (compileAll (newRegExp js) (ignoreRegexes s)) c"
  shows "toQueue_first js s f oldPath \<noteq> Some c"
  using assms by (auto simp: toQueue_first_def Let_def split: if_splits)

lemma toAdd_not_ignored:
  assumes "someTest (compileAll (newRegExp js) (ignoreRegexes s)) c"
  shows "c \<notin> set (toAdd js s cur names)"
  using assms by (simp add: toAdd_def)

lemma toAdd_subset: "set (toAdd js s cur names) \<subseteq> set names"
  by (auto simp: toAdd_def)

lemma aliasesAt_processAliases:
  assumes "processAliases js s v p names = Inr v'"
  shows "set (aliasesAt v' q)
     \<subseteq> set (aliasesAt v q)
       \<union> (case v p of None \<Rightarrow> {}
          | Some file \<Rightarrow> JString ` set (toAdd js s (basename (handle file)) names))"
proof (cases "q = p")
  case False
  then show ?thesis using processAliases_other [OF assms] by (simp add: aliasesAt_def)
next
  case True
  show ?thesis
  proof (cases "v p")
    case None
    then show ?thesis using assms by (simp add: processAliases_def)
  next
    case (Some fl)
    let ?cands = "toAdd js s (basename (handle fl)) names"
    show ?thesis
    proof (cases "?cands = []")
      case True
      with Some show ?thesis using assms by (simp add: processAliases_def)
    next
      case False
      from assms Some False obtain fm where
        m: "mutator js s ?cands (frontmatter fl) = Inr fm"
        and v': "v' = v(p \<mapsto> fl\<lparr>frontmatter := fm\<rparr>)"
        by (auto simp: processAliases_at split: sum.splits)
      have "z \<in> set (aliasesAt v p) \<or> z \<in> JString ` set ?cands"
        if z: "z \<in> set (aliasesAt v' p)" for z
      proof (cases "\<exists>ys. frontmatter fl ''aliases'' = Some (Array ys)")
        case True
        then obtain ys where ys: "frontmatter fl ''aliases'' = Some (Array ys)" by blast
        with m obtain zs where zs: "mergeAliases js s ys ?cands = Inr zs"
          and fm: "fm = (frontmatter fl)(''aliases'' \<mapsto> Array zs)"
          by (auto simp: mutator_def split: sum.splits)
        from z have "z \<in> set zs" by (simp add: v' fm aliasesAt_def)
        from mergeAliases_set [OF zs this] Some ys show ?thesis
          by (auto simp: aliasesAt_def)
      next
        case na: False
        show ?thesis
        proof (cases "autoCreateFrontmatter s")
          case True
          with na m obtain zs where zs: "mergeAliases js s [] ?cands = Inr zs"
            and fm: "fm = (frontmatter fl)(''aliases'' \<mapsto> Array zs)"
            by (auto simp: mutator_def split: sum.splits option.splits fmvalue.splits)
          from z have "z \<in> set zs" by (simp add: v' fm aliasesAt_def)
          from mergeAliases_set [OF zs this] show ?thesis by auto
        next
          case False
          with na m have "fm = frontmatter fl"
            by (auto simp: mutator_def split: option.splits fmvalue.splits)
          with z Some show ?thesis by (simp add: v' aliasesAt_def)
        qed
      qed
      with Some \<open>q = p\<close> show ?thesis by auto
    qed
  qed
qed

text \<open>
  Claim C4: let \<open>c\<close> match a configured ignore pattern that compiles. At the queue, the
  handler of any revision does not select \<open>c\<close> as the name to queue. At the settlement,
  \<open>c\<close> is not among the surviving candidates whatever the queue holds, so processAliases,
  whether it returns or throws, and the callback of any timer in any state, put \<open>c\<close> in no
  alias list that did not hold it before: a name queued before the pattern was configured
  is suppressed when the timer fires.
\<close>

theorem ignored_name_never_written:
  assumes "str \<in> set (ignoreRegexes s)" and "newRegExp js str = Some re" and "re c"
  shows "toQueue js s tr f oldPath \<noteq> Some c
       \<and> c \<notin> set (toAdd js s cur names)
       \<and> (JString c \<in> set (aliasesAt (case processAliases js s v p names of
                                         Inl e \<Rightarrow> v | Inr v' \<Rightarrow> v') q)
            \<longrightarrow> JString c \<in> set (aliasesAt v q))
       \<and> (JString c \<in> set (aliasesAt (snd (timerCallback js s (st, v) t)) q)
            \<longrightarrow> JString c \<in> set (aliasesAt v q))"
proof -
  have m: "someTest (compileAll (newRegExp js) (ignoreRegexes s)) c"
    using assms by (auto simp: someTest_iff)
  have 1: "toQueue js s tr f oldPath \<noteq> Some c"
    using m by (rule toQueue_not_ignored)
  have 2: "\<And>cur names. c \<notin> set (toAdd js s cur names)"
    using m by (rule toAdd_not_ignored)
  have 3: "JString c \<in> set (aliasesAt (case processAliases js s v p names of
                                         Inl e \<Rightarrow> v | Inr v' \<Rightarrow> v') q)
      \<Longrightarrow> JString c \<in> set (aliasesAt v q)" for p names
  proof (cases "processAliases js s v p names")
    case (Inl e)
    then show "JString c \<in> set (aliasesAt (case processAliases js s v p names of
                                         Inl e \<Rightarrow> v | Inr v' \<Rightarrow> v') q)
      \<Longrightarrow> JString c \<in> set (aliasesAt v q)"
      by simp
  next
    case (Inr v')
    assume "JString c \<in> set (aliasesAt (case processAliases js s v p names of
                                         Inl e \<Rightarrow> v | Inr v' \<Rightarrow> v') q)"
    with Inr have a: "JString c \<in> set (aliasesAt v' q)" by simp
    have "JString c \<notin> (case v p of None \<Rightarrow> {}
        | Some fl \<Rightarrow> JString ` set (toAdd js s (basename (handle fl)) names))"
      using 2 by (cases "v p") auto
    with a aliasesAt_processAliases [OF Inr, of q]
    show "JString c \<in> set (aliasesAt v q)" by blast
  qed
  have 4: "JString c \<in> set (aliasesAt (snd (timerCallback js s (st, v) t)) q)
      \<Longrightarrow> JString c \<in> set (aliasesAt v q)"
  proof (cases "timers st t")
    case None
    then show "JString c \<in> set (aliasesAt (snd (timerCallback js s (st, v) t)) q)
      \<Longrightarrow> JString c \<in> set (aliasesAt v q)"
      by (simp add: timerCallback_pair)
  next
    case (Some r)
    then show "JString c \<in> set (aliasesAt (snd (timerCallback js s (st, v) t)) q)
      \<Longrightarrow> JString c \<in> set (aliasesAt v q)"
      using 3 by (simp add: timerCallback_pair)
  qed
  from 1 2 3 4 show ?thesis by blast
qed

lemma ascii_lower_eval:
  "asciiLower ''old'' = ''old''" "asciiLower ''Old'' = ''old''" "asciiLower ''new'' = ''new''"
  "asciiLower ''New'' = ''new''" "asciiLower ''first'' = ''first''"
  "asciiLower ''second'' = ''second''" "asciiLower ''_tmp'' = ''_tmp''"
  by (simp_all add: asciiLower_def asciiLowerChar_def)

lemmas eval_defs = exampleVault_def exampleFile_def toAdd_def DEFAULT_SETTINGS_def
  defaults_eval defaultPatterns_eval isDigit_def ascii_eval ascii_lower_eval

lemmas settle_defs = aliasesAt_def processAliases_def mutator_def mergeAliases_def
  existingSet_def checkName_def

theorem settle_appends_or_throws_witness:
  "exampleVault (Some (Array [JString ''Old'', JString ''first''])) ''new.md''
     = Some (exampleFile (Some (Array [JString ''Old'', JString ''first''])))
   \<and> frontmatter (exampleFile (Some (Array [JString ''Old'', JString ''first''])))
        ''aliases''
     = Some (Array [JString ''Old'', JString ''first''])
   \<and> toAdd ascii DEFAULT_SETTINGS
        (basename (handle (exampleFile (Some (Array [JString ''Old'', JString ''first''])))))
        [''old'', ''second'', ''_tmp'', ''New''] = [''old'', ''second'']
   \<and> isString (JString ''Old'') \<and> isString (JString ''first'')
   \<and> (\<exists>v'. processAliases ascii DEFAULT_SETTINGS
            (exampleVault (Some (Array [JString ''Old'', JString ''first''])))
            ''new.md'' [''old'', ''second'', ''_tmp'', ''New''] = Inr v'
        \<and> aliasesAt v' ''new.md'' = [JString ''Old'', JString ''first'', JString ''second''])
   \<and> exampleVault (Some (Array [JString ''first'', JOther ''2024''])) ''new.md''
     = Some (exampleFile (Some (Array [JString ''first'', JOther ''2024''])))
   \<and> frontmatter (exampleFile (Some (Array [JString ''first'', JOther ''2024''])))
        ''aliases''
     = Some (Array [JString ''first'', JOther ''2024''])
   \<and> toAdd ascii DEFAULT_SETTINGS
        (basename (handle (exampleFile (Some (Array [JString ''first'', JOther ''2024''])))))
        [''old''] = [''old'']
   \<and> \<not> caseSensitive DEFAULT_SETTINGS \<and> \<not> isString (JOther ''2024'')
   \<and> processAliases ascii DEFAULT_SETTINGS
        (exampleVault (Some (Array [JString ''first'', JOther ''2024''])))
        ''new.md'' [''old''] = Inl TypeError
   \<and> timers (enqueue initial ''old.md'' ''new.md'' ''old'') 1 = Some 0
   \<and> currentPath (heap (enqueue initial ''old.md'' ''new.md'' ''old'') 0) = ''new.md''
   \<and> queue (heap (enqueue initial ''old.md'' ''new.md'' ''old'') 0) = [''old'']
   \<and> snd (timerCallback ascii DEFAULT_SETTINGS
        (enqueue initial ''old.md'' ''new.md'' ''old'',
         exampleVault (Some (Array [JString ''first'', JOther ''2024'']))) 1)
     = exampleVault (Some (Array [JString ''first'', JOther ''2024'']))
   \<and> caseSensitive (DEFAULT_SETTINGS\<lparr>caseSensitive := True\<rparr>)
   \<and> (\<exists>v'. processAliases ascii (DEFAULT_SETTINGS\<lparr>caseSensitive := True\<rparr>)
            (exampleVault (Some (Array [JString ''first'', JOther ''2024''])))
            ''new.md'' [''old''] = Inr v'
        \<and> aliasesAt v' ''new.md'' = [JString ''first'', JOther ''2024'', JString ''old''])"
proof -
  let ?A = "[JString ''Old'', JString ''first'']"
  let ?B = "[JString ''first'', JOther ''2024'']"
  let ?st = "enqueue initial ''old.md'' ''new.md'' ''old''"
  let ?cs = "DEFAULT_SETTINGS\<lparr>caseSensitive := True\<rparr>"
  have a1: "exampleVault (Some (Array ?A)) ''new.md'' = Some (exampleFile (Some (Array ?A)))"
    by (simp add: exampleVault_def)
  have a2: "frontmatter (exampleFile (Some (Array ?A))) ''aliases'' = Some (Array ?A)"
    by (simp add: exampleFile_def)
  have a3: "toAdd ascii DEFAULT_SETTINGS (basename (handle (exampleFile (Some (Array ?A)))))
        [''old'', ''second'', ''_tmp'', ''New''] = [''old'', ''second'']"
    by (simp add: eval_defs)
  have a4: "isString (JString ''Old'') \<and> isString (JString ''first'')"
    by (simp add: isString_def)
  have ne: "[''old'', ''second''] \<noteq> []" by simp
  have a5: "caseSensitive DEFAULT_SETTINGS \<or> (\<forall>y \<in> set ?A. isString y)"
    using a4 by simp
  note t1 = settle_appends_or_throws [where v = "exampleVault (Some (Array ?A))"
      and p = "''new.md''" and js = ascii and s = DEFAULT_SETTINGS, OF a1 a2 a3 ne,
      THEN conjunct1, rule_format, OF a5]
  have a6: "\<exists>v'. processAliases ascii DEFAULT_SETTINGS (exampleVault (Some (Array ?A)))
            ''new.md'' [''old'', ''second'', ''_tmp'', ''New''] = Inr v'
        \<and> aliasesAt v' ''new.md'' = [JString ''Old'', JString ''first'', JString ''second'']"
  proof -
    from t1 obtain v' news where
      p: "processAliases ascii DEFAULT_SETTINGS (exampleVault (Some (Array ?A)))
            ''new.md'' [''old'', ''second'', ''_tmp'', ''New''] = Inr v'"
      by (elim exE conjE)
    have "aliasesAt v' ''new.md'' = [JString ''Old'', JString ''first'', JString ''second'']"
      using p by (auto simp: settle_defs eval_defs)
    with p show ?thesis by blast
  qed
  have b1: "exampleVault (Some (Array ?B)) ''new.md'' = Some (exampleFile (Some (Array ?B)))"
    by (simp add: exampleVault_def)
  have b2: "frontmatter (exampleFile (Some (Array ?B))) ''aliases'' = Some (Array ?B)"
    by (simp add: exampleFile_def)
  have b3: "toAdd ascii DEFAULT_SETTINGS (basename (handle (exampleFile (Some (Array ?B)))))
        [''old''] = [''old'']"
    by (simp add: eval_defs)
  have b3': "toAdd ascii ?cs (basename (handle (exampleFile (Some (Array ?B)))))
        [''old''] = [''old'']"
    by (simp add: eval_defs)
  have b4: "\<not> caseSensitive DEFAULT_SETTINGS \<and> \<not> isString (JOther ''2024'')"
    by (simp add: DEFAULT_SETTINGS_def defaults_eval isString_def)
  have b5: "\<not> caseSensitive DEFAULT_SETTINGS \<and> (\<exists>y \<in> set ?B. \<not> isString y)"
    using b4 by simp
  have ne': "[''old''] \<noteq> []" by simp
  have q: "timers ?st 1 = Some 0 \<and> currentPath (heap ?st 0) = ''new.md''
      \<and> queue (heap ?st 0) = [''old'']"
    by (simp add: enqueue_def initial_def setAdd_def clearTimeout_def)
  note t2 = settle_appends_or_throws [where v = "exampleVault (Some (Array ?B))"
      and p = "''new.md''" and js = ascii and s = DEFAULT_SETTINGS and st = ?st and t = 1
      and r = 0, OF b1 b2 b3 ne', THEN conjunct2, rule_format, OF b5]
  have b6: "processAliases ascii DEFAULT_SETTINGS (exampleVault (Some (Array ?B)))
        ''new.md'' [''old''] = Inl TypeError"
    using t2 by (elim conjE)
  have b7: "snd (timerCallback ascii DEFAULT_SETTINGS (?st, exampleVault (Some (Array ?B))) 1)
     = exampleVault (Some (Array ?B))"
    using t2 q by (elim conjE) simp
  have c1: "caseSensitive ?cs" by simp
  have c5: "caseSensitive ?cs \<or> (\<forall>y \<in> set ?B. isString y)" by simp
  note t3 = settle_appends_or_throws [where v = "exampleVault (Some (Array ?B))"
      and p = "''new.md''" and js = ascii and s = ?cs, OF b1 b2 b3' ne',
      THEN conjunct1, rule_format, OF c5]
  have c6: "\<exists>v'. processAliases ascii ?cs (exampleVault (Some (Array ?B)))
            ''new.md'' [''old''] = Inr v'
        \<and> aliasesAt v' ''new.md'' = [JString ''first'', JOther ''2024'', JString ''old'']"
  proof -
    from t3 obtain v' news where
      p: "processAliases ascii ?cs (exampleVault (Some (Array ?B))) ''new.md'' [''old'']
          = Inr v'"
      by (elim exE conjE)
    have "aliasesAt v' ''new.md'' = [JString ''first'', JOther ''2024'', JString ''old'']"
      using p by (auto simp: settle_defs eval_defs)
    with p show ?thesis by blast
  qed
  from a1 a2 a3 a4 [THEN conjunct1] a4 [THEN conjunct2] a6 b1 b2 b3 b4 [THEN conjunct1]
    b4 [THEN conjunct2] b6 q [THEN conjunct1] q [THEN conjunct2, THEN conjunct1]
    q [THEN conjunct2, THEN conjunct2] b7 c1 c6
  show ?thesis by (intro conjI)
qed

theorem no_list_no_autocreate_witness:
  "\<not> autoCreateFrontmatter (DEFAULT_SETTINGS\<lparr>autoCreateFrontmatter := False\<rparr>)
   \<and> exampleVault None ''new.md'' = Some (exampleFile None)
   \<and> frontmatter (exampleFile None) ''aliases'' = None
   \<and> exampleVault (Some (NonArray ''old name'')) ''new.md''
       = Some (exampleFile (Some (NonArray ''old name'')))
   \<and> frontmatter (exampleFile (Some (NonArray ''old name''))) ''aliases''
       = Some (NonArray ''old name'')
   \<and> toAdd ascii (DEFAULT_SETTINGS\<lparr>autoCreateFrontmatter := False\<rparr>) ''new'' [''old'']
       = [''old'']
   \<and> mutator ascii (DEFAULT_SETTINGS\<lparr>autoCreateFrontmatter := False\<rparr>) [''old'']
        (frontmatter (exampleFile None)) = Inr (frontmatter (exampleFile None))
   \<and> mutator ascii (DEFAULT_SETTINGS\<lparr>autoCreateFrontmatter := False\<rparr>) [''old'']
        (frontmatter (exampleFile (Some (NonArray ''old name''))))
       = Inr (frontmatter (exampleFile (Some (NonArray ''old name''))))
   \<and> processAliases ascii (DEFAULT_SETTINGS\<lparr>autoCreateFrontmatter := False\<rparr>)
        (exampleVault None) ''new.md'' [''old''] = Inr (exampleVault None)
   \<and> processAliases ascii (DEFAULT_SETTINGS\<lparr>autoCreateFrontmatter := False\<rparr>)
        (exampleVault (Some (NonArray ''old name''))) ''new.md'' [''old'']
       = Inr (exampleVault (Some (NonArray ''old name'')))"
proof -
  let ?s = "DEFAULT_SETTINGS\<lparr>autoCreateFrontmatter := False\<rparr>"
  have h1: "\<not> autoCreateFrontmatter ?s"
    by simp
  have h2: "exampleVault None ''new.md'' = Some (exampleFile None)"
    by (simp add: exampleVault_def)
  have h3: "frontmatter (exampleFile None) ''aliases'' = None"
    by (simp add: exampleFile_def)
  have h4: "exampleVault (Some (NonArray ''old name'')) ''new.md''
       = Some (exampleFile (Some (NonArray ''old name'')))"
    by (simp add: exampleVault_def)
  have h5: "frontmatter (exampleFile (Some (NonArray ''old name''))) ''aliases''
       = Some (NonArray ''old name'')"
    by (simp add: exampleFile_def)
  have h6: "toAdd ascii ?s ''new'' [''old''] = [''old'']"
    by (simp add: eval_defs)
  note a = no_list_no_autocreate [where v = "exampleVault None" and p = "''new.md''"
      and js = ascii and names = "[''old'']" and cands = "[''old'']", OF h1 h2 disjI1, OF h3]
  note b = no_list_no_autocreate [where v = "exampleVault (Some (NonArray ''old name''))"
      and p = "''new.md''" and js = ascii and names = "[''old'']" and cands = "[''old'']",
      OF h1 h4 disjI2, OF h5]
  from h1 h2 h3 h4 h5 h6 a [THEN conjunct1] b [THEN conjunct1] a [THEN conjunct2]
    b [THEN conjunct2]
  show ?thesis by (intro conjI)
qed

theorem autocreate_replaces_non_list_witness:
  "autoCreateFrontmatter DEFAULT_SETTINGS
   \<and> exampleVault (Some (NonArray ''old name'')) ''new.md''
       = Some (exampleFile (Some (NonArray ''old name'')))
   \<and> frontmatter (exampleFile (Some (NonArray ''old name''))) ''aliases''
       = Some (NonArray ''old name'')
   \<and> toAdd ascii DEFAULT_SETTINGS
        (basename (handle (exampleFile (Some (NonArray ''old name'')))))
        [''old'', ''Old'', ''_tmp''] = [''old'', ''Old'']
   \<and> (\<exists>v' file' news.
         processAliases ascii DEFAULT_SETTINGS
           (exampleVault (Some (NonArray ''old name''))) ''new.md'' [''old'', ''Old'', ''_tmp'']
           = Inr v'
         \<and> v' ''new.md'' = Some file'
         \<and> frontmatter file' ''aliases'' = Some (Array (map JString news))
         \<and> mergeAliases ascii DEFAULT_SETTINGS [] [''old'', ''Old''] = Inr (map JString news)
         \<and> news \<noteq> [] \<and> hd news = hd [''old'', ''Old'']
         \<and> subseq news [''old'', ''Old'']
         \<and> distinct (map (checkName ascii DEFAULT_SETTINGS) news)
         \<and> (\<forall>c \<in> set [''old'', ''Old''].
               checkName ascii DEFAULT_SETTINGS c \<in> checkName ascii DEFAULT_SETTINGS ` set news))
   \<and> (\<exists>v'. processAliases ascii DEFAULT_SETTINGS
         (exampleVault (Some (NonArray ''old name''))) ''new.md'' [''old'', ''Old'', ''_tmp'']
         = Inr v'
       \<and> aliasesAt v' ''new.md'' = [JString ''old''])"
proof -
  let ?v = "exampleVault (Some (NonArray ''old name''))"
  have h1: "autoCreateFrontmatter DEFAULT_SETTINGS"
    by (simp add: DEFAULT_SETTINGS_def defaults_eval)
  have h2: "?v ''new.md'' = Some (exampleFile (Some (NonArray ''old name'')))"
    by (simp add: exampleVault_def)
  have h3: "frontmatter (exampleFile (Some (NonArray ''old name''))) ''aliases''
       = Some (NonArray ''old name'')"
    by (simp add: exampleFile_def)
  have h4: "toAdd ascii DEFAULT_SETTINGS
        (basename (handle (exampleFile (Some (NonArray ''old name'')))))
        [''old'', ''Old'', ''_tmp''] = [''old'', ''Old'']"
    by (simp add: eval_defs)
  have h5: "[''old'', ''Old''] \<noteq> []" by simp
  note ex = autocreate_replaces_non_list [where v = ?v and p = "''new.md''" and js = ascii,
      OF h1 h2 h3 h4 h5]
  have v: "\<exists>v'. processAliases ascii DEFAULT_SETTINGS ?v ''new.md'' [''old'', ''Old'', ''_tmp'']
         = Inr v' \<and> aliasesAt v' ''new.md'' = [JString ''old'']"
  proof -
    from ex obtain v' where
      p: "processAliases ascii DEFAULT_SETTINGS ?v ''new.md'' [''old'', ''Old'', ''_tmp'']
          = Inr v'"
      by (elim exE conjE)
    have "aliasesAt v' ''new.md'' = [JString ''old'']"
      using p by (auto simp: settle_defs eval_defs)
    with p show ?thesis by blast
  qed
  from h1 h2 h3 h4 ex v show ?thesis by (intro conjI)
qed

lemma ignored_eval:
  "someTest (compileAll defaultPatterns (ignoreRegexes DEFAULT_SETTINGS)) ''_draft''
   \<and> getBasename ''_draft.md'' = ''_draft''"
  by (simp add: eval_defs getBasename_def splitSlash_def pop_def orEmpty_def stripExtension_def)

theorem ignored_name_never_written_witness:
  "''^_'' \<in> set (ignoreRegexes DEFAULT_SETTINGS)
   \<and> newRegExp ascii ''^_'' = Some (\<lambda>name. prefix ''_'' name)
   \<and> prefix ''_'' ''_draft''
   \<and> toQueue ascii DEFAULT_SETTINGS False
        \<lparr>path = ''draft.md'', basename = ''draft'', extension = ''md''\<rparr> ''_draft.md''
       \<noteq> Some ''_draft''
   \<and> timers (enqueue initial ''_draft.md'' ''new.md'' ''_draft'') 1 = Some 0
   \<and> queue (heap (enqueue initial ''_draft.md'' ''new.md'' ''_draft'') 0) = [''_draft'']
   \<and> JString ''_draft'' \<notin> set (aliasesAt (exampleVault None) ''new.md'')
   \<and> JString ''_draft'' \<notin> set (aliasesAt (snd (timerCallback ascii DEFAULT_SETTINGS
         (enqueue initial ''_draft.md'' ''new.md'' ''_draft'', exampleVault None) 1)) ''new.md'')"
proof -
  have h1: "''^_'' \<in> set (ignoreRegexes DEFAULT_SETTINGS)"
    by (simp add: DEFAULT_SETTINGS_def defaultsWith_def)
  have h2: "newRegExp ascii ''^_'' = Some (\<lambda>name. prefix ''_'' name)"
    by (simp add: ascii_def defaultPatterns_def)
  have h3: "prefix ''_'' ''_draft''" by simp
  note t = ignored_name_never_written [where re = "\<lambda>name. prefix ''_'' name"
      and js = ascii and str = "''^_''" and s = DEFAULT_SETTINGS
      and c = "''_draft''" and tr = False
      and f = "\<lparr>path = ''draft.md'', basename = ''draft'', extension = ''md''\<rparr>"
      and oldPath = "''_draft.md''" and v = "exampleVault None" and q = "''new.md''"
      and st = "enqueue initial ''_draft.md'' ''new.md'' ''_draft''" and t = 1,
      OF h1 h2 h3]
  have q: "timers (enqueue initial ''_draft.md'' ''new.md'' ''_draft'') 1 = Some 0
      \<and> queue (heap (enqueue initial ''_draft.md'' ''new.md'' ''_draft'') 0) = [''_draft'']"
    by (simp add: enqueue_def initial_def setAdd_def clearTimeout_def)
  have b: "JString ''_draft'' \<notin> set (aliasesAt (exampleVault None) ''new.md'')"
    by (simp add: aliasesAt_def exampleVault_def exampleFile_def)
  have a: "JString ''_draft'' \<notin> set (aliasesAt (snd (timerCallback ascii DEFAULT_SETTINGS
         (enqueue initial ''_draft.md'' ''new.md'' ''_draft'', exampleVault None) 1)) ''new.md'')"
    using t b by blast
  from h1 h2 h3 t [THEN conjunct1] q [THEN conjunct1] q [THEN conjunct2] b a
  show ?thesis by (intro conjI)
qed

section \<open>Properties of the debounce map\<close>

lemma wellFormed_initial: "wellFormed initial"
  by (simp add: wellFormed_def initial_def)

lemma enqueue_found:
  assumes "debounceMap st oldPath = Some r"
  shows "enqueue st oldPath newPath name =
     st\<lparr>heap := (heap st)(r := (heap st r)\<lparr>currentPath := newPath,
               queue := setAdd (queue (heap st r)) name, timeoutId := Some (nextTimer st)\<rparr>),
        nextRef := nextRef st,
        debounceMap := ((debounceMap st)(oldPath := None))(newPath \<mapsto> r),
        timers := (clearTimeout (timeoutId (heap st r)) (timers st))(nextTimer st \<mapsto> r),
        nextTimer := Suc (nextTimer st)\<rparr>"
  using assms by (simp add: enqueue_def Let_def)

lemma enqueue_fresh:
  assumes "debounceMap st oldPath = None"
  shows "enqueue st oldPath newPath name =
     st\<lparr>heap := (heap st)(nextRef st :=
               \<lparr>queue = [name], timeoutId = Some (nextTimer st), currentPath = newPath\<rparr>),
        nextRef := Suc (nextRef st),
        debounceMap := (debounceMap st)(newPath \<mapsto> nextRef st),
        timers := (timers st)(nextTimer st \<mapsto> nextRef st),
        nextTimer := Suc (nextTimer st)\<rparr>"
  using assms by (simp add: enqueue_def Let_def setAdd_def clearTimeout_def)

lemma setAdd_not_empty: "setAdd q x \<noteq> []"
  by (auto simp: setAdd_def)

lemma wellFormed_enqueue:
  assumes "wellFormed st"
  shows "wellFormed (enqueue st oldPath newPath name)"
proof (cases "debounceMap st oldPath")
  case None
  show ?thesis
    unfolding enqueue_fresh [OF None] using assms
    by (auto simp: wellFormed_def less_Suc_eq split: if_splits)
next
  case (Some r)
  show ?thesis
    unfolding enqueue_found [OF Some] using assms Some
    by (auto simp: wellFormed_def less_Suc_eq setAdd_not_empty clearTimeout_def
        split: if_splits option.splits)
qed

text \<open>The accumulating revision does not look the map up under the new path: when nothing is
  pending under the old path, the queue step cancels no timer, so that an entry it
  overwrites under the new path keeps its live timer.\<close>

lemma enqueue_keeps_other_timers:
  assumes "debounceMap st oldPath = None" "t \<noteq> nextTimer st"
  shows "timers (enqueue st oldPath newPath name) t = timers st t"
  unfolding enqueue_fresh [OF assms(1)] using assms(2) by simp

lemma firstQueued_hd: "q \<noteq> [] \<Longrightarrow> firstQueued q = Some (hd q)"
  by (cases q) (simp_all add: firstQueued_def)

lemma existingEntry_wellFormed:
  "wellFormed st \<Longrightarrow> existingEntry st oldPath newPath = Some r
   \<Longrightarrow> r < nextRef st \<and> queue (heap st r) \<noteq> []
       \<and> (\<forall>t. timeoutId (heap st r) = Some t \<longrightarrow> t < nextTimer st)"
  by (auto simp: existingEntry_def wellFormed_def split: option.splits)

lemma enqueue_stable_found:
  assumes "existingEntry st oldPath newPath = Some r" "queue (heap st r) \<noteq> []"
  shows "enqueue_stable st oldPath newPath name =
     Some (st\<lparr>heap := (heap st)(nextRef st :=
                 \<lparr>queue = [hd (queue (heap st r))], timeoutId = Some (nextTimer st),
                  currentPath = newPath\<rparr>),
              nextRef := Suc (nextRef st),
              debounceMap := (if debounceMap st newPath = None
                              then (debounceMap st)(oldPath := None) else debounceMap st)
                             (newPath \<mapsto> nextRef st),
              timers := (clearTimeout (timeoutId (heap st r)) (timers st))
                          (nextTimer st \<mapsto> nextRef st),
              nextTimer := Suc (nextTimer st)\<rparr>)"
  using assms
  by (auto simp: enqueue_stable_def existingEntry_def Let_def firstQueued_hd
      split: option.splits)

lemma enqueue_stable_fresh:
  assumes "existingEntry st oldPath newPath = None"
  shows "enqueue_stable st oldPath newPath name =
     Some (st\<lparr>heap := (heap st)(nextRef st :=
                 \<lparr>queue = [name], timeoutId = Some (nextTimer st), currentPath = newPath\<rparr>),
              nextRef := Suc (nextRef st),
              debounceMap := (debounceMap st)(newPath \<mapsto> nextRef st),
              timers := (timers st)(nextTimer st \<mapsto> nextRef st),
              nextTimer := Suc (nextTimer st)\<rparr>)"
  using assms
  by (auto simp: enqueue_stable_def existingEntry_def Let_def split: option.splits)

lemma wellFormed_enqueue_stable:
  assumes "wellFormed st"
  shows "\<exists>st'. enqueue_stable st oldPath newPath name = Some st' \<and> wellFormed st'"
proof (cases "existingEntry st oldPath newPath")
  case None
  show ?thesis
    unfolding enqueue_stable_fresh [OF None] using assms
    by (auto simp: wellFormed_def less_Suc_eq split: if_splits)
next
  case (Some r)
  note e = existingEntry_wellFormed [OF assms Some]
  show ?thesis
    unfolding enqueue_stable_found [OF Some conjunct1 [OF conjunct2 [OF e]]] using assms
    by (auto simp: wellFormed_def less_Suc_eq clearTimeout_def
        split: if_splits option.splits)
qed

lemma wellFormed_fireTimer: "wellFormed st \<Longrightarrow> wellFormed (fireTimer st t)"
  by (auto simp: wellFormed_def fireTimer_def Let_def split: option.splits if_splits)

lemma handleRename_queue:
  "toQueue js s (trackingToggle s f) f oldPath = Some name
   \<Longrightarrow> handleRename js s (TFile f) oldPath st = enqueue st oldPath (path f) name"
  by (simp add: handleRename_def)

lemma handleRename_stable_queue:
  "toQueue js s (trackingFilename js s f) f oldPath = Some name
   \<Longrightarrow> handleRename_stable js s (TFile f) oldPath st
       = enqueue_stable st oldPath (path f) name"
  by (simp add: handleRename_stable_def)

lemma wellFormed_handleRename:
  "wellFormed st \<Longrightarrow> wellFormed (handleRename js s newFile oldPath st)"
  by (auto simp: handleRename_def wellFormed_enqueue split: abstractFile.splits option.splits)

lemma wellFormed_handleRename_stable:
  "wellFormed st
   \<Longrightarrow> \<exists>st'. handleRename_stable js s newFile oldPath st = Some st' \<and> wellFormed st'"
  by (auto simp: handleRename_stable_def wellFormed_enqueue_stable
      split: abstractFile.splits option.splits)

lemma coalesced_first:
  assumes "wellFormed st"
  shows "coalesced st (enqueue st oldPath newPath name) newPath"
proof (cases "debounceMap st oldPath")
  case None
  have w: "wellFormed (enqueue st oldPath newPath name)"
    using assms by (rule wellFormed_enqueue)
  have p: "pendingFor (enqueue st oldPath newPath name) (nextTimer st) (nextRef st) newPath"
    unfolding enqueue_fresh [OF None] by (simp add: pendingFor_def)
  have t: "\<forall>t'. t' \<noteq> nextTimer st \<longrightarrow>
      timers (enqueue st oldPath newPath name) t' = timers st t'"
    unfolding enqueue_fresh [OF None] by simp
  have m: "\<forall>q. q \<noteq> newPath \<longrightarrow>
      debounceMap (enqueue st oldPath newPath name) q = debounceMap st q"
    unfolding enqueue_fresh [OF None] by simp
  have c: "calls (enqueue st oldPath newPath name) = calls st
      \<and> nextTimer st \<le> nextTimer (enqueue st oldPath newPath name)"
    unfolding enqueue_fresh [OF None] by simp
  from w p t m c show ?thesis unfolding coalesced_def by blast
next
  case (Some r)
  have w: "wellFormed (enqueue st oldPath newPath name)"
    using assms by (rule wellFormed_enqueue)
  have p: "pendingFor (enqueue st oldPath newPath name) (nextTimer st) r newPath"
    unfolding enqueue_found [OF Some] by (simp add: pendingFor_def)
  have t: "\<forall>t'. t' \<noteq> nextTimer st \<longrightarrow>
      timers (enqueue st oldPath newPath name) t' = None
      \<or> timers (enqueue st oldPath newPath name) t' = timers st t'"
    unfolding enqueue_found [OF Some] by (simp add: clearTimeout_def split: option.splits)
  have m: "\<forall>q. q \<noteq> newPath \<longrightarrow>
      debounceMap (enqueue st oldPath newPath name) q = None
      \<or> debounceMap (enqueue st oldPath newPath name) q = debounceMap st q"
    unfolding enqueue_found [OF Some] by simp
  have c: "calls (enqueue st oldPath newPath name) = calls st
      \<and> nextTimer st \<le> nextTimer (enqueue st oldPath newPath name)"
    unfolding enqueue_found [OF Some] by simp
  from w p t m c show ?thesis unfolding coalesced_def by blast
qed

lemma coalesced_next:
  assumes "coalesced st stk pk"
  shows "coalesced st (enqueue stk pk newPath name) newPath"
proof -
  from assms obtain t r where
    w: "wellFormed stk" and p: "pendingFor stk t r pk" and le: "nextTimer st \<le> t"
    and ts: "\<forall>t'. t' \<noteq> t \<longrightarrow> timers stk t' = None \<or> timers stk t' = timers st t'"
    and ms: "\<forall>q. q \<noteq> pk \<longrightarrow> debounceMap stk q = None \<or> debounceMap stk q = debounceMap st q"
    and c: "calls stk = calls st" and n: "nextTimer st \<le> nextTimer stk"
    unfolding coalesced_def by blast
  from p have found: "debounceMap stk pk = Some r" and tid: "timeoutId (heap stk r) = Some t"
    by (simp_all add: pendingFor_def)
  let ?st' = "enqueue stk pk newPath name"
  have w': "wellFormed ?st'" using w by (rule wellFormed_enqueue)
  have p': "pendingFor ?st' (nextTimer stk) r newPath"
    unfolding enqueue_found [OF found] by (simp add: pendingFor_def)
  have t': "\<forall>t'. t' \<noteq> nextTimer stk \<longrightarrow> timers ?st' t' = None \<or> timers ?st' t' = timers st t'"
    unfolding enqueue_found [OF found] using ts tid by (simp add: clearTimeout_def)
  have m': "\<forall>q. q \<noteq> newPath \<longrightarrow> debounceMap ?st' q = None \<or> debounceMap ?st' q = debounceMap st q"
    unfolding enqueue_found [OF found] using ms by simp
  have c': "calls ?st' = calls st \<and> nextTimer st \<le> nextTimer ?st'"
    unfolding enqueue_found [OF found] using c n by simp
  from w' p' n t' m' c' show ?thesis unfolding coalesced_def by blast
qed

lemma coalesced_first_stable:
  assumes "wellFormed st" "debounceMap st newPath = None"
  shows "\<exists>st'. enqueue_stable st oldPath newPath name = Some st' \<and> coalesced st st' newPath"
proof -
  from wellFormed_enqueue_stable [OF assms(1)] obtain st' where
    e: "enqueue_stable st oldPath newPath name = Some st'" and w: "wellFormed st'" by blast
  have x: "existingEntry st oldPath newPath = debounceMap st oldPath"
    using assms(2) by (simp add: existingEntry_def)
  have "pendingFor st' (nextTimer st) (nextRef st) newPath
      \<and> (\<forall>t'. t' \<noteq> nextTimer st \<longrightarrow> timers st' t' = None \<or> timers st' t' = timers st t')
      \<and> (\<forall>q. q \<noteq> newPath \<longrightarrow> debounceMap st' q = None \<or> debounceMap st' q = debounceMap st q)
      \<and> calls st' = calls st \<and> nextTimer st \<le> nextTimer st'"
  proof (cases "debounceMap st oldPath")
    case None
    with x have "existingEntry st oldPath newPath = None" by simp
    from e [unfolded enqueue_stable_fresh [OF this]] show ?thesis
      by (auto simp: pendingFor_def)
  next
    case (Some r)
    with x have f: "existingEntry st oldPath newPath = Some r" by simp
    note q = existingEntry_wellFormed [OF assms(1) f, THEN conjunct2, THEN conjunct1]
    from e [unfolded enqueue_stable_found [OF f q]] show ?thesis
      by (auto simp: pendingFor_def clearTimeout_def split: option.splits)
  qed
  with e w show ?thesis unfolding coalesced_def by blast
qed

lemma coalesced_next_stable:
  assumes "coalesced st stk pk" "newPath = pk \<or> debounceMap st newPath = None"
  shows "\<exists>st'. enqueue_stable stk pk newPath name = Some st' \<and> coalesced st st' newPath"
proof -
  from assms(1) obtain t r where
    w: "wellFormed stk" and p: "pendingFor stk t r pk" and le: "nextTimer st \<le> t"
    and ts: "\<forall>t'. t' \<noteq> t \<longrightarrow> timers stk t' = None \<or> timers stk t' = timers st t'"
    and ms: "\<forall>q. q \<noteq> pk \<longrightarrow> debounceMap stk q = None \<or> debounceMap stk q = debounceMap st q"
    and c: "calls stk = calls st" and n: "nextTimer st \<le> nextTimer stk"
    unfolding coalesced_def by blast
  from p have found: "debounceMap stk pk = Some r" and tid: "timeoutId (heap stk r) = Some t"
    by (simp_all add: pendingFor_def)
  have other: "newPath \<noteq> pk \<Longrightarrow> debounceMap stk newPath = None"
    using ms assms(2) by auto
  have f: "existingEntry stk pk newPath = Some r"
    using found other by (cases "newPath = pk") (simp_all add: existingEntry_def)
  note q = existingEntry_wellFormed [OF w f, THEN conjunct2, THEN conjunct1]
  from wellFormed_enqueue_stable [OF w] obtain st' where
    e: "enqueue_stable stk pk newPath name = Some st'" and w': "wellFormed st'" by blast
  have eq: "st' = stk\<lparr>heap := (heap stk)(nextRef stk :=
                 \<lparr>queue = [hd (queue (heap stk r))], timeoutId = Some (nextTimer stk),
                  currentPath = newPath\<rparr>),
              nextRef := Suc (nextRef stk),
              debounceMap := (if debounceMap stk newPath = None
                              then (debounceMap stk)(pk := None) else debounceMap stk)
                             (newPath \<mapsto> nextRef stk),
              timers := (clearTimeout (timeoutId (heap stk r)) (timers stk))
                          (nextTimer stk \<mapsto> nextRef stk),
              nextTimer := Suc (nextTimer stk)\<rparr>"
    using e unfolding enqueue_stable_found [OF f q] by simp
  have p': "pendingFor st' (nextTimer stk) (nextRef stk) newPath"
    unfolding eq by (simp add: pendingFor_def)
  have t': "\<forall>t'. t' \<noteq> nextTimer stk \<longrightarrow> timers st' t' = None \<or> timers st' t' = timers st t'"
    unfolding eq using ts tid by (simp add: clearTimeout_def)
  have m': "debounceMap st' x = None \<or> debounceMap st' x = debounceMap st x"
    if "x \<noteq> newPath" for x
  proof (cases "x = pk")
    case True
    with that other have "debounceMap stk newPath = None" by simp
    with True that show ?thesis unfolding eq by simp
  next
    case False
    with ms have "debounceMap stk x = None \<or> debounceMap stk x = debounceMap st x" by simp
    with False that show ?thesis unfolding eq by simp
  qed
  have c': "calls st' = calls st \<and> nextTimer st \<le> nextTimer st'"
    unfolding eq using c n by simp
  from p' t' m' c'
  have "pendingFor st' (nextTimer stk) (nextRef stk) newPath
      \<and> (\<forall>t'. t' \<noteq> nextTimer stk \<longrightarrow> timers st' t' = None \<or> timers st' t' = timers st t')
      \<and> (\<forall>q. q \<noteq> newPath \<longrightarrow> debounceMap st' q = None \<or> debounceMap st' q = debounceMap st q)
      \<and> calls st' = calls st \<and> nextTimer st \<le> nextTimer st'"
    by blast
  with e w' n show ?thesis unfolding coalesced_def by blast
qed

lemma run_Cons: "run js s st (ev # evs) = run js s (step js s st ev) evs"
  by (simp add: run_def)

lemma run_Nil: "run js s st [] = st"
  by (simp add: run_def)

text \<open>Every sequence of events leads from a well-formed state to a well-formed state, in
  the two later revisions; in particular the latest revision never meets an entry with an empty
  queue on the way.\<close>

lemma wellFormed_step: "wellFormed st \<Longrightarrow> wellFormed (step js s st ev)"
  by (cases ev) (simp_all add: wellFormed_handleRename wellFormed_fireTimer)

lemma wellFormed_run: "wellFormed st \<Longrightarrow> wellFormed (run js s st evs)"
  by (induction evs arbitrary: st) (simp_all add: run_Nil run_Cons wellFormed_step)

lemma wellFormed_step_stable:
  "wellFormed st \<Longrightarrow> \<exists>st'. step_stable js s st ev = Some st' \<and> wellFormed st'"
  by (cases ev) (simp_all add: wellFormed_handleRename_stable wellFormed_fireTimer)

lemma wellFormed_run_stable:
  "wellFormed st \<Longrightarrow> \<exists>st'. run_stable js s st evs = Some st' \<and> wellFormed st'"
proof (induction evs arbitrary: st)
  case Nil
  then show ?case by simp
next
  case (Cons ev evs)
  from wellFormed_step_stable [OF Cons.prems] obtain st1 where
    s: "step_stable js s st ev = Some st1" and w: "wellFormed st1" by blast
  from Cons.IH [OF w] s show ?case by simp
qed


lemma coalesced_chain:
  assumes "coalesced st stk pk" "accepted js s trackingToggle pk fs"
  shows "coalesced st (run js s stk (renameChain pk fs)) (last (pk # map path fs))"
  using assms
proof (induction fs arbitrary: stk pk)
  case Nil
  then show ?case by (simp add: run_Nil)
next
  case (Cons f fs)
  from Cons.prems(2) obtain name where
    q: "toQueue js s (trackingToggle s f) f pk = Some name"
    and a: "accepted js s trackingToggle (path f) fs"
    by auto
  have "coalesced st (enqueue stk pk (path f) name) (path f)"
    using Cons.prems(1) by (rule coalesced_next)
  from Cons.IH [OF this a] show ?case
    by (simp add: run_Cons handleRename_queue [OF q])
qed

lemma coalesced_chain_stable:
  assumes "coalesced st stk pk" "accepted js s (trackingFilename js) pk fs"
    "\<forall>f \<in> set fs. debounceMap st (path f) = None"
  shows "\<exists>st'. run_stable js s stk (renameChain pk fs) = Some st'
           \<and> coalesced st st' (last (pk # map path fs))"
  using assms
proof (induction fs arbitrary: stk pk)
  case Nil
  then show ?case by simp
next
  case (Cons f fs)
  from Cons.prems(2) obtain name where
    q: "toQueue js s (trackingFilename js s f) f pk = Some name"
    and a: "accepted js s (trackingFilename js) (path f) fs"
    by auto
  from Cons.prems(3) have h: "path f = pk \<or> debounceMap st (path f) = None"
    and hs: "\<forall>f \<in> set fs. debounceMap st (path f) = None" by simp_all
  from coalesced_next_stable [OF Cons.prems(1) h] obtain st1 where
    e: "enqueue_stable stk pk (path f) name = Some st1" and c: "coalesced st st1 (path f)"
    by blast
  from Cons.IH [OF c a hs] show ?case
    by (simp add: handleRename_stable_queue [OF q] e)
qed

lemma coalesced_oneNewTimerAt:
  assumes "wellFormed st" "coalesced st st' p"
  shows "oneNewTimerAt st st' p"
proof -
  from assms(2) obtain t r where
    p: "pendingFor st' t r p" and le: "nextTimer st \<le> t"
    and ts: "\<forall>t'. t' \<noteq> t \<longrightarrow> timers st' t' = None \<or> timers st' t' = timers st t'"
    and ms: "\<forall>q. q \<noteq> p \<longrightarrow> debounceMap st' q = None \<or> debounceMap st' q = debounceMap st q"
    and c: "calls st' = calls st"
    unfolding coalesced_def by blast
  have 1: "timers st t = None"
  proof (cases "timers st t")
    case None
    then show ?thesis .
  next
    case (Some x)
    with assms(1) have "t < nextTimer st" by (simp add: wellFormed_def)
    with le show ?thesis by simp
  qed
  from p have 2: "timers st' t = Some r" and 3: "debounceMap st' p = Some r"
    and 4: "currentPath (heap st' r) = p"
    by (simp_all add: pendingFor_def)
  have 5: "calls (fireTimer st' t) = calls st @ [(p, queue (heap st' r))]"
    using 2 4 c by (simp add: fireTimer_def)
  have 6: "debounceMap (fireTimer st' t) p = None"
    using 2 4 by (simp add: fireTimer_def)
  from 1 2 ts 3 ms c 5 6 show ?thesis unfolding oneNewTimerAt_def by blast
qed

lemma coalesced_elsewhere:
  assumes "coalesced st st' p" "debounceMap st q = None" "q \<noteq> p"
  shows "debounceMap st' q = None"
  using assms unfolding coalesced_def by metis

text \<open>
  Renames of one file in a row. Let a file be renamed one or more times, from \<open>p0\<close> along
  the paths of \<open>fs\<close>, with no other event in between (no timer fires and no other file is
  renamed), let the handler reach the queue step at each rename, and let the state \<open>st\<close>
  before the first rename be well formed and hold no pending entry under any path the
  file is renamed to. Then, in the two later revisions, the renames arm exactly one timer
  that is live afterwards; its entry is stored under the final path and under no other
  path of the chain; and when it fires it makes one call of processAliases, with the
  final path. The lemma says nothing of the timers that were live before the chain, nor
  of chains with other events in between: \<open>staleEntryTrace\<close> and \<open>staleTimerTrace\<close> show what
  happens there.
\<close>

lemma rename_chain_one_new_timer:
  assumes "wellFormed st" and "fs \<noteq> []"
    and "\<forall>f \<in> set fs. debounceMap st (path f) = None"
  shows "(accepted js s trackingToggle p0 fs \<longrightarrow>
            oneNewTimerAt st (run js s st (renameChain p0 fs)) (path (last fs))
            \<and> (\<forall>f \<in> set fs. path f \<noteq> path (last fs) \<longrightarrow>
                  debounceMap (run js s st (renameChain p0 fs)) (path f) = None))
       \<and> (accepted js s' (trackingFilename js) p0 fs \<longrightarrow>
            (\<exists>st'. run_stable js s' st (renameChain p0 fs) = Some st'
               \<and> oneNewTimerAt st st' (path (last fs))
               \<and> (\<forall>f \<in> set fs. path f \<noteq> path (last fs) \<longrightarrow>
                     debounceMap st' (path f) = None)))"
proof -
  from assms(2) obtain f fs' where fs: "fs = f # fs'" by (cases fs) auto
  have l: "last (path f # map path fs') = path (last fs)"
    unfolding fs by (simp add: last_map)
  have acc: "oneNewTimerAt st (run js s st (renameChain p0 fs)) (path (last fs))
      \<and> (\<forall>f \<in> set fs. path f \<noteq> path (last fs) \<longrightarrow>
            debounceMap (run js s st (renameChain p0 fs)) (path f) = None)"
    if a: "accepted js s trackingToggle p0 fs"
  proof -
    from a fs obtain name where
      q: "toQueue js s (trackingToggle s f) f p0 = Some name"
      and a': "accepted js s trackingToggle (path f) fs'"
      by auto
    have "coalesced st (enqueue st p0 (path f) name) (path f)"
      using assms(1) by (rule coalesced_first)
    from coalesced_chain [OF this a']
    have c: "coalesced st (run js s st (renameChain p0 fs)) (path (last fs))"
      unfolding l fs by (simp add: run_Cons handleRename_queue [OF q])
    from coalesced_oneNewTimerAt [OF assms(1) c] coalesced_elsewhere [OF c] assms(3)
    show ?thesis by blast
  qed
  have stable: "\<exists>st'. run_stable js s' st (renameChain p0 fs) = Some st'
      \<and> oneNewTimerAt st st' (path (last fs))
      \<and> (\<forall>f \<in> set fs. path f \<noteq> path (last fs) \<longrightarrow> debounceMap st' (path f) = None)"
    if a: "accepted js s' (trackingFilename js) p0 fs"
  proof -
    from a fs obtain name where
      q: "toQueue js s' (trackingFilename js s' f) f p0 = Some name"
      and a': "accepted js s' (trackingFilename js) (path f) fs'"
      by auto
    from assms(3) fs have h: "debounceMap st (path f) = None"
      and hs: "\<forall>f \<in> set fs'. debounceMap st (path f) = None" by simp_all
    from coalesced_first_stable [OF assms(1) h] obtain st1 where
      e: "enqueue_stable st p0 (path f) name = Some st1" and c1: "coalesced st st1 (path f)"
      by blast
    from coalesced_chain_stable [OF c1 a' hs] obtain st' where
      r: "run_stable js s' st1 (renameChain (path f) fs') = Some st'"
      and c: "coalesced st st' (path (last fs))"
      unfolding l by blast
    have r': "run_stable js s' st (renameChain p0 fs) = Some st'"
      unfolding fs using r by (simp add: handleRename_stable_queue [OF q] e)
    from r' coalesced_oneNewTimerAt [OF assms(1) c] coalesced_elsewhere [OF c] assms(3)
    show ?thesis by blast
  qed
  from acc stable show ?thesis by blast
qed

lemmas path_defs = getBasename_def getImmediateParentName_def splitSlash_def pop_def
  orEmpty_def stripExtension_def

lemma ascii_letters:
  "asciiLower ''a'' = ''a''" "asciiLower ''b'' = ''b''" "asciiLower ''c'' = ''c''"
  "asciiLower ''d'' = ''d''" "asciiLower ''w'' = ''w''" "asciiLower ''z'' = ''z''"
  by (simp_all add: asciiLower_def asciiLowerChar_def)

lemma toQueue_examples:
  "toQueue ascii (defaultsWith tr) False (md ''b.md'' ''b'') ''a.md'' = Some ''a''"
  "toQueue ascii (defaultsWith tr) False (md ''sub/b.md'' ''b'') ''b.md'' = None"
  "toQueue ascii (defaultsWith tr) False (md ''d.md'' ''d'') ''c.md'' = Some ''c''"
  "toQueue ascii (defaultsWith tr) False (md ''b.md'' ''b'') ''d.md'' = Some ''d''"
  "toQueue ascii (defaultsWith tr) False (md ''c.md'' ''c'') ''b.md'' = Some ''b''"
  "toQueue ascii (defaultsWith tr) False (md ''b.md'' ''b'') ''w.md'' = Some ''w''"
  "toQueue ascii (defaultsWith tr) False (md ''z.md'' ''z'') ''b.md'' = Some ''b''"
  by (simp_all add: toQueue_def Let_def md_def isNameChange_def isFolderChange_def
      outOfScope_def defaults_eval defaultPatterns_eval isDigit_def ascii_eval ascii_letters
      path_defs)

lemma tracking_examples:
  "trackingToggle DEFAULT_SETTINGS f = False" "trackingFilename js (defaultsWith []) f = False"
  by (simp_all add: trackingToggle_def trackingFilename_def DEFAULT_SETTINGS_def defaultsWith_def)

lemma path_md [simp]: "path (md p b) = p"
  by (simp add: md_def)

lemma handleRename_case:
  "handleRename js s (TFile f) oldPath st =
     (case toQueue js s (trackingToggle s f) f oldPath of
        None \<Rightarrow> st | Some name \<Rightarrow> enqueue st oldPath (path f) name)"
  by (simp add: handleRename_def)

lemma handleRename_stable_case:
  "handleRename_stable js s (TFile f) oldPath st =
     (case toQueue js s (trackingFilename js s f) f oldPath of
        None \<Rightarrow> Some st | Some name \<Rightarrow> enqueue_stable st oldPath (path f) name)"
  by (simp add: handleRename_stable_def)

lemmas trace_eval = handleRename_case handleRename_stable_case
  toQueue_examples [where tr = False, folded DEFAULT_SETTINGS_def]
  toQueue_examples [where tr = "[]"] tracking_examples

text \<open>
  Claim C1 fails in both later revisions of the handler: a rename that returns before the
  queue step leaves the entry of its file under the path the file has left, and the queue
  step and the timers then take that entry for the entry of the file that arrives there.

  \<^item> In \<open>staleEntryTrace\<close> the second file is renamed twice, both renames are queued and
    no timer fires in between. In the latest revision the queue step finds the stale
    entry under the new path and does not look at the old path: the timers call
    processAliases with the intermediate path \<^verbatim>\<open>d.md\<close>, and with the final path \<^verbatim>\<open>b.md\<close> and
    the old name of the first file. In the accumulating revision they call it twice with
    the final path, the first time with the old name of the first file.
  \<^item> In \<open>staleTimerTrace\<close> the second rename of the second file comes before the timer
    of its first rename fires. In the accumulating revision the timer of the stale entry
    has by then removed the key of the second file, so the second rename starts a new
    entry and leaves the timer of the first rename live: the timers call processAliases
    with the intermediate path \<^verbatim>\<open>b.md\<close> twice and with the final path \<^verbatim>\<open>z.md\<close> once, without
    the first name \<^verbatim>\<open>w\<close>.
\<close>

theorem stale_entry_settlements:
  "map_option calls (run_stable ascii (defaultsWith []) initial
      (staleEntryTrace @ [Fire 1, Fire 2, Fire 3]))
     = Some [(''d.md'', [''c'']), (''b.md'', [''a''])]
   \<and> calls (run ascii DEFAULT_SETTINGS initial
        (staleEntryTrace @ [Fire 1, Fire 2, Fire 3]))
     = [(''b.md'', [''a'']), (''b.md'', [''c'', ''d''])]
   \<and> calls (run ascii DEFAULT_SETTINGS initial staleTimerTrace)
     = [(''b.md'', [''a'']), (''b.md'', [''w'']), (''z.md'', [''b''])]"
  by (simp add: staleEntryTrace_def staleTimerTrace_def run_def trace_eval
      enqueue_def enqueue_stable_def
      fireTimer_def initial_def setAdd_def clearTimeout_def firstQueued_def Let_def)

text \<open>An instance of the lemma on renames in a row: \<^verbatim>\<open>a.md\<close> is renamed to \<^verbatim>\<open>b.md\<close> and then to
  \<^verbatim>\<open>c.md\<close>, from the initial state.\<close>

lemma rename_chain_example:
  "wellFormed initial
   \<and> accepted ascii DEFAULT_SETTINGS trackingToggle ''a.md''
        [md ''b.md'' ''b'', md ''c.md'' ''c'']
   \<and> accepted ascii (defaultsWith []) (trackingFilename ascii) ''a.md''
        [md ''b.md'' ''b'', md ''c.md'' ''c'']
   \<and> oneNewTimerAt initial
        (run ascii DEFAULT_SETTINGS initial
           (renameChain ''a.md'' [md ''b.md'' ''b'', md ''c.md'' ''c''])) ''c.md''
   \<and> debounceMap (run ascii DEFAULT_SETTINGS initial
           (renameChain ''a.md'' [md ''b.md'' ''b'', md ''c.md'' ''c''])) ''b.md'' = None
   \<and> (\<exists>st'. run_stable ascii (defaultsWith []) initial
           (renameChain ''a.md'' [md ''b.md'' ''b'', md ''c.md'' ''c'']) = Some st'
         \<and> oneNewTimerAt initial st' ''c.md'' \<and> debounceMap st' ''b.md'' = None)
   \<and> calls (run ascii DEFAULT_SETTINGS initial
        (renameChain ''a.md'' [md ''b.md'' ''b'', md ''c.md'' ''c''] @ [Fire 1, Fire 2]))
      = [(''c.md'', [''a'', ''b''])]
   \<and> map_option calls (run_stable ascii (defaultsWith []) initial
        (renameChain ''a.md'' [md ''b.md'' ''b'', md ''c.md'' ''c''] @ [Fire 1, Fire 2]))
      = Some [(''c.md'', [''a''])]"
proof -
  let ?fs = "[md ''b.md'' ''b'', md ''c.md'' ''c'']"
  have h1: "wellFormed initial" by (rule wellFormed_initial)
  have h2: "?fs \<noteq> []" by simp
  have h3: "\<forall>f \<in> set ?fs. debounceMap initial (path f) = None"
    by (simp add: initial_def)
  have h4: "accepted ascii DEFAULT_SETTINGS trackingToggle ''a.md'' ?fs"
    by (simp add: trace_eval)
  have h5: "accepted ascii (defaultsWith []) (trackingFilename ascii) ''a.md'' ?fs"
    by (simp add: trace_eval)
  note t = rename_chain_one_new_timer [OF h1 h2 h3, where js = ascii
      and s = DEFAULT_SETTINGS and s' = "defaultsWith []" and ?p0.0 = "''a.md''"]
  from t h4 have a: "oneNewTimerAt initial
        (run ascii DEFAULT_SETTINGS initial (renameChain ''a.md'' ?fs)) ''c.md''
      \<and> debounceMap (run ascii DEFAULT_SETTINGS initial
           (renameChain ''a.md'' ?fs)) ''b.md'' = None"
    by simp
  from t h5 have b: "\<exists>st'. run_stable ascii (defaultsWith []) initial
           (renameChain ''a.md'' ?fs) = Some st'
         \<and> oneNewTimerAt initial st' ''c.md'' \<and> debounceMap st' ''b.md'' = None"
    by simp
  have c: "calls (run ascii DEFAULT_SETTINGS initial
        (renameChain ''a.md'' ?fs @ [Fire 1, Fire 2])) = [(''c.md'', [''a'', ''b''])]"
    by (simp add: run_def trace_eval enqueue_def
        fireTimer_def initial_def setAdd_def clearTimeout_def Let_def)
  have d: "map_option calls (run_stable ascii (defaultsWith []) initial
        (renameChain ''a.md'' ?fs @ [Fire 1, Fire 2])) = Some [(''c.md'', [''a''])]"
    by (simp add: trace_eval
        enqueue_stable_def fireTimer_def initial_def clearTimeout_def firstQueued_def Let_def)
  from h1 h4 h5 a b c d show ?thesis by (intro conjI) simp_all
qed

lemma wellFormed_timer_fresh: "wellFormed st \<Longrightarrow> timers st (nextTimer st) = None"
proof (cases "timers st (nextTimer st)")
  case None
  then show ?thesis .
next
  case (Some x)
  assume "wellFormed st"
  with Some have "nextTimer st < nextTimer st" unfolding wellFormed_def by blast
  then show ?thesis by simp
qed

lemma wellFormed_timeoutId:
  "wellFormed st \<Longrightarrow> debounceMap st p = Some r \<Longrightarrow> timeoutId (heap st r) = Some t
   \<Longrightarrow> t \<noteq> nextTimer st"
  unfolding wellFormed_def by (metis less_irrefl)

text \<open>
  The queue step of the latest revision in a well-formed state, case by case. The step
  looks for an entry under the new path and, only if there is none, under the old path.
  When it finds one, the timer of that entry is cancelled and a new entry, holding the
  first queued name of the entry found, is stored under the new path with a new timer;
  the new entry takes the place of an entry found under the new path, and the key of the
  old path is removed when the entry was found there. In this last case the paths with a
  pending entry are those of before, with the new path in place of the old one. When no
  entry is found, a new entry with the candidate is stored under the new path.
\<close>

lemma enqueue_stable_rekeys:
  assumes "wellFormed st"
  shows "\<exists>st'. enqueue_stable st oldPath newPath name = Some st'
     \<and> pendingFor st' (nextTimer st) (nextRef st) newPath
     \<and> timers st (nextTimer st) = None
     \<and> (\<forall>r. debounceMap st newPath = Some r \<longrightarrow>
           queue (heap st' (nextRef st)) = [hd (queue (heap st r))]
           \<and> (\<forall>t. timeoutId (heap st r) = Some t \<longrightarrow> timers st' t = None)
           \<and> timers st' = (clearTimeout (timeoutId (heap st r)) (timers st))
                            (nextTimer st \<mapsto> nextRef st)
           \<and> debounceMap st' = (debounceMap st)(newPath \<mapsto> nextRef st))
     \<and> (\<forall>r. debounceMap st newPath = None \<and> debounceMap st oldPath = Some r \<longrightarrow>
           queue (heap st' (nextRef st)) = [hd (queue (heap st r))]
           \<and> (\<forall>t. timeoutId (heap st r) = Some t \<longrightarrow> timers st' t = None)
           \<and> timers st' = (clearTimeout (timeoutId (heap st r)) (timers st))
                            (nextTimer st \<mapsto> nextRef st)
           \<and> debounceMap st' = ((debounceMap st)(oldPath := None))(newPath \<mapsto> nextRef st)
           \<and> dom (debounceMap st') = insert newPath (dom (debounceMap st) - {oldPath}))
     \<and> (debounceMap st newPath = None \<and> debounceMap st oldPath = None \<longrightarrow>
           queue (heap st' (nextRef st)) = [name]
           \<and> timers st' = (timers st)(nextTimer st \<mapsto> nextRef st)
           \<and> debounceMap st' = (debounceMap st)(newPath \<mapsto> nextRef st))"
proof -
  have fresh: "timers st (nextTimer st) = None"
    using assms by (rule wellFormed_timer_fresh)
  have old: "t \<noteq> nextTimer st" if "debounceMap st p = Some r" "timeoutId (heap st r) = Some t"
    for p r t
    using assms that by (rule wellFormed_timeoutId)
  show ?thesis
  proof (cases "existingEntry st oldPath newPath")
    case None
    then have n: "debounceMap st newPath = None" "debounceMap st oldPath = None"
      by (simp_all add: existingEntry_def split: option.splits)
    show ?thesis
      unfolding enqueue_stable_fresh [OF None] using n fresh
      by (simp add: pendingFor_def)
  next
    case (Some r)
    note q = existingEntry_wellFormed [OF assms Some, THEN conjunct2, THEN conjunct1]
    show ?thesis
    proof (cases "debounceMap st newPath")
      case None
      with Some have o: "debounceMap st oldPath = Some r" by (simp add: existingEntry_def)
      have c: "\<forall>t. timeoutId (heap st r) = Some t \<longrightarrow>
          ((clearTimeout (timeoutId (heap st r)) (timers st))(nextTimer st \<mapsto> nextRef st)) t
            = None"
        using old [OF o] by (simp add: clearTimeout_def)
      show ?thesis
        unfolding enqueue_stable_found [OF Some q] using None o fresh c
        by (auto simp: pendingFor_def)
    next
      case (Some r')
      with \<open>existingEntry st oldPath newPath = Some r\<close> have r: "r' = r"
        by (simp add: existingEntry_def)
      have o: "debounceMap st newPath = Some r" using Some r by simp
      have c: "\<forall>t. timeoutId (heap st r) = Some t \<longrightarrow>
          ((clearTimeout (timeoutId (heap st r)) (timers st))(nextTimer st \<mapsto> nextRef st)) t
            = None"
        using old [OF o] by (simp add: clearTimeout_def)
      show ?thesis
        unfolding enqueue_stable_found [OF \<open>existingEntry st oldPath newPath = Some r\<close> q]
        using o fresh c by (simp add: pendingFor_def)
    qed
  qed
qed

lemma wellFormed_pendingExample: "wellFormed pendingExample"
  by (simp add: wellFormed_def pendingExample_def)

lemma wellFormed_staleExample: "wellFormed staleExample"
  by (simp add: wellFormed_def staleExample_def)

lemma pendingExample_reached:
  "run ascii DEFAULT_SETTINGS initial [Rename (TFile (md ''b.md'' ''b'')) ''a.md'']
     = pendingExample
   \<and> run_stable ascii (defaultsWith []) initial
       [Rename (TFile (md ''b.md'' ''b'')) ''a.md''] = Some pendingExample"
  by (simp add: run_def trace_eval enqueue_def enqueue_stable_def initial_def
      pendingExample_def setAdd_def clearTimeout_def Let_def)

lemma staleExample_reached:
  "run_stable ascii (defaultsWith []) initial (take 3 staleEntryTrace) = Some staleExample
   \<and> run ascii DEFAULT_SETTINGS initial (take 3 staleEntryTrace) = staleExample"
  by (simp add: staleEntryTrace_def run_def trace_eval enqueue_def enqueue_stable_def
      initial_def staleExample_def setAdd_def clearTimeout_def Let_def numeral_2_eq_2
      numeral_3_eq_3)

text \<open>
  Claim C2 fails in the latest revision of the queue step where an entry is pending under
  the new path, as the entry of a file that has left that path without being queued is.
  Let the state be well formed, let an entry \<open>r\<close> be stored under the new path and the entry
  \<open>r'\<close> of the renamed file under the old path, with its live timer \<open>t'\<close> (which is not the
  timer that \<open>r\<close> records). The step finds \<open>r\<close> and does not look the old path up:
  afterwards the old path still holds \<open>r'\<close>, unchanged, the timer \<open>t'\<close> is still live and
  will call processAliases with the path and the queue of \<open>r'\<close>, and the new entry under the
  new path holds the first name of \<open>r\<close>, not the candidate. The file has two pending
  entries.
\<close>

theorem stale_entry_second_pending:
  assumes "wellFormed st"
    and "debounceMap st newPath = Some r"
    and "debounceMap st oldPath = Some r'"
    and "oldPath \<noteq> newPath"
    and "timers st t' = Some r'"
    and "timeoutId (heap st r) \<noteq> Some t'"
  shows "\<exists>st'. enqueue_stable st oldPath newPath name = Some st'
     \<and> debounceMap st' oldPath = Some r'
     \<and> timers st' t' = Some r'
     \<and> heap st' r' = heap st r'
     \<and> debounceMap st' newPath = Some (nextRef st)
     \<and> timers st' (nextTimer st) = Some (nextRef st)
     \<and> nextRef st \<noteq> r' \<and> nextTimer st \<noteq> t'
     \<and> queue (heap st' (nextRef st)) = [hd (queue (heap st r))]
     \<and> calls (fireTimer st' t')
         = calls st @ [(currentPath (heap st r'), queue (heap st r'))]"
proof -
  have x: "existingEntry st oldPath newPath = Some r"
    using assms(2) by (simp add: existingEntry_def)
  note q = existingEntry_wellFormed [OF assms(1) x, THEN conjunct2, THEN conjunct1]
  have r': "r' < nextRef st" and t': "t' < nextTimer st"
    using assms(1,5) unfolding wellFormed_def by blast+
  have c: "clearTimeout (timeoutId (heap st r)) (timers st) t' = Some r'"
    using assms(5,6) by (auto simp: clearTimeout_def split: option.splits)
  show ?thesis
    unfolding enqueue_stable_found [OF x q]
    using assms(2,3,4,5) r' t' c by (simp add: fireTimer_def Let_def)
qed

theorem stale_entry_second_pending_witness:
  "wellFormed staleExample
   \<and> run_stable ascii (defaultsWith []) initial (take 3 staleEntryTrace) = Some staleExample
   \<and> debounceMap staleExample ''b.md'' = Some 0
   \<and> debounceMap staleExample ''d.md'' = Some 1
   \<and> ''d.md'' \<noteq> ''b.md''
   \<and> timers staleExample 2 = Some 1
   \<and> timeoutId (heap staleExample 0) \<noteq> Some 2
   \<and> handleRename_stable ascii (defaultsWith []) (TFile (md ''b.md'' ''b'')) ''d.md''
        staleExample
      = enqueue_stable staleExample ''d.md'' ''b.md'' ''d''
   \<and> (\<exists>st'. enqueue_stable staleExample ''d.md'' ''b.md'' ''d'' = Some st'
         \<and> debounceMap st' ''d.md'' = Some 1
         \<and> timers st' 2 = Some 1
         \<and> debounceMap st' ''b.md'' = Some 2
         \<and> timers st' 3 = Some 2
         \<and> queue (heap st' 2) = [''a'']
         \<and> calls (fireTimer st' 2) = [(''d.md'', [''c''])])"
proof -
  have w: "wellFormed staleExample" by (rule wellFormed_staleExample)
  have r: "run_stable ascii (defaultsWith []) initial (take 3 staleEntryTrace)
      = Some staleExample"
    using staleExample_reached by (rule conjunct1)
  have h2: "debounceMap staleExample ''b.md'' = Some 0" by (simp add: staleExample_def)
  have h3: "debounceMap staleExample ''d.md'' = Some 1" by (simp add: staleExample_def)
  have h4: "''d.md'' \<noteq> ''b.md''" by simp
  have h5: "timers staleExample 2 = Some 1" by (simp add: staleExample_def)
  have h6: "timeoutId (heap staleExample 0) \<noteq> Some 2" by (simp add: staleExample_def)
  have e: "handleRename_stable ascii (defaultsWith []) (TFile (md ''b.md'' ''b'')) ''d.md''
        staleExample
      = enqueue_stable staleExample ''d.md'' ''b.md'' ''d''"
    by (simp add: trace_eval)
  have f: "nextRef staleExample = 2 \<and> nextTimer staleExample = 3
      \<and> queue (heap staleExample 0) = [''a''] \<and> calls staleExample = []
      \<and> currentPath (heap staleExample 1) = ''d.md''
      \<and> queue (heap staleExample 1) = [''c'']"
    by (simp add: staleExample_def)
  have x: "\<exists>st'. enqueue_stable staleExample ''d.md'' ''b.md'' ''d'' = Some st'
         \<and> debounceMap st' ''d.md'' = Some 1
         \<and> timers st' 2 = Some 1
         \<and> debounceMap st' ''b.md'' = Some 2
         \<and> timers st' 3 = Some 2
         \<and> queue (heap st' 2) = [''a'']
         \<and> calls (fireTimer st' 2) = [(''d.md'', [''c''])]"
    using stale_entry_second_pending [OF w h2 h3 h4 h5 h6, of "''d''"] f
    by (elim exE conjE) simp
  from w r h2 h3 h4 h5 h6 e x show ?thesis by (intro conjI)
qed

text \<open>Instances of the three cases of the queue step: an entry under the old path, an
  entry under the new path, and no entry.\<close>

lemma enqueue_stable_rekeys_example:
  "wellFormed pendingExample \<and> wellFormed initial
   \<and> (\<exists>st'. enqueue_stable pendingExample ''b.md'' ''c.md'' ''b'' = Some st'
         \<and> debounceMap st' ''c.md'' = Some 1 \<and> debounceMap st' ''b.md'' = None
         \<and> timers st' 1 = None \<and> timers st' 2 = Some 1 \<and> queue (heap st' 1) = [''a''])
   \<and> (\<exists>st'. enqueue_stable pendingExample ''x.md'' ''b.md'' ''x'' = Some st'
         \<and> debounceMap st' ''b.md'' = Some 1
         \<and> timers st' 1 = None \<and> timers st' 2 = Some 1 \<and> queue (heap st' 1) = [''a''])
   \<and> (\<exists>st'. enqueue_stable initial ''a.md'' ''b.md'' ''a'' = Some st'
         \<and> debounceMap st' ''b.md'' = Some 0 \<and> timers st' 1 = Some 0
         \<and> queue (heap st' 0) = [''a''])"
proof -
  have w: "wellFormed pendingExample" by (rule wellFormed_pendingExample)
  have w0: "wellFormed initial" by (rule wellFormed_initial)
  have f: "nextTimer pendingExample = 2 \<and> nextRef pendingExample = 1
      \<and> debounceMap pendingExample ''c.md'' = None
      \<and> debounceMap pendingExample ''b.md'' = Some 0
      \<and> debounceMap pendingExample ''x.md'' = None
      \<and> queue (heap pendingExample 0) = [''a'']
      \<and> timeoutId (heap pendingExample 0) = Some 1"
    by (simp add: pendingExample_def)
  have f0: "nextTimer initial = 1 \<and> nextRef initial = 0
      \<and> debounceMap initial ''a.md'' = None \<and> debounceMap initial ''b.md'' = None"
    by (simp add: initial_def)
  have 1: "\<exists>st'. enqueue_stable pendingExample ''b.md'' ''c.md'' ''b'' = Some st'
         \<and> debounceMap st' ''c.md'' = Some 1 \<and> debounceMap st' ''b.md'' = None
         \<and> timers st' 1 = None \<and> timers st' 2 = Some 1 \<and> queue (heap st' 1) = [''a'']"
    using enqueue_stable_rekeys [OF w, of "''b.md''" "''c.md''" "''b''"] f
    by (elim exE conjE) (simp add: pendingFor_def clearTimeout_def)
  have 2: "\<exists>st'. enqueue_stable pendingExample ''x.md'' ''b.md'' ''x'' = Some st'
         \<and> debounceMap st' ''b.md'' = Some 1
         \<and> timers st' 1 = None \<and> timers st' 2 = Some 1 \<and> queue (heap st' 1) = [''a'']"
    using enqueue_stable_rekeys [OF w, of "''x.md''" "''b.md''" "''x''"] f
    by (elim exE conjE) (simp add: pendingFor_def clearTimeout_def)
  have 3: "\<exists>st'. enqueue_stable initial ''a.md'' ''b.md'' ''a'' = Some st'
         \<and> debounceMap st' ''b.md'' = Some 0 \<and> timers st' 1 = Some 0
         \<and> queue (heap st' 0) = [''a'']"
    using enqueue_stable_rekeys [OF w0, of "''a.md''" "''b.md''" "''a''"] f0
    by (elim exE conjE) (simp add: pendingFor_def clearTimeout_def)
  from w w0 1 2 3 show ?thesis by (intro conjI)
qed


end
